theory Spec2Isabelle
  imports Main
begin

section \<open>Python values and errors\<close>

text \<open>
  The exceptions that the modelled code can raise. The first group are Python's own;
  \<open>TwitterServerError\<close> is tweepy's transient server error; \<open>EmptyTwitterResponseException\<close>
  and \<open>MaxRetries\<close> are the two exceptions of \<open>utils/exceptions.py\<close> that both pull loops
  catch; \<open>OtherError\<close> stands for any other exception of the remote client.
\<close>

datatype py_error =
    ZeroDivisionError
  | IndexError
  | KeyError
  | TypeError
  | ValueError
  | AttributeError
  | NameError
  | TwitterServerError
  | EmptyTwitterResponseException
  | MaxRetries
  | OtherError

text \<open>
  Python's \<open>xs[i] = v\<close> on a list: a negative index counts from the end, an index out of
  range raises IndexError.
\<close>

definition set_item :: "'a list \<Rightarrow> int \<Rightarrow> 'a \<Rightarrow> py_error + 'a list" where
  "set_item xs i v =
     (let n = int (length xs); j = (if i < 0 then n + i else i)
      in if 0 \<le> j \<and> j < n then Inr (xs[nat j := v]) else Inl IndexError)"

section \<open>Batch planning (\<open>TweetSearch.pull\<close>, lines 52--60)\<close>

text \<open>
  \<^verbatim>\<open>
  num_batches = (max_results//batch_size) + 1
  batches = [batch_size] * num_batches
  last_batch_size = max_results % batch_size
  if last_batch_size < 10:
      batches[-1] = 10
      if num_batches > 1:
          batches[-2] = batch_size - (10 - last_batch_size)
  else:
      batches[-1] = last_batch_size
  \<close>
  Python's \<open>//\<close> and \<open>%\<close> on integers round towards minus infinity, as \<open>div\<close> and \<open>mod\<close>
  on \<open>int\<close> do; a zero divisor raises ZeroDivisionError. \<open>[x] * n\<close> is the empty list
  for \<open>n \<le> 0\<close>.
\<close>

definition plan_batches :: "int \<Rightarrow> int \<Rightarrow> py_error + int list" where
  "plan_batches max_results batch_size =
     (if batch_size = 0 then Inl ZeroDivisionError
      else
        let num_batches = max_results div batch_size + 1;
            batches = replicate (nat num_batches) batch_size;
            last_batch_size = max_results mod batch_size
        in if last_batch_size < 10 then
             (case set_item batches (- 1) 10 of
                Inl e \<Rightarrow> Inl e
              | Inr batches1 \<Rightarrow>
                  if num_batches > 1
                  then set_item batches1 (- 2) (batch_size - (10 - last_batch_size))
                  else Inr batches1)
           else set_item batches (- 1) last_batch_size)"


section \<open>Records as Python values\<close>

text \<open>
  Tweets, users, media and link records are Python dicts with string keys, holding
  JSON-like values. A dict is an association list read by first match; \<open>PNaN\<close> is the
  missing-cell value that pandas fills in.
\<close>

datatype pyval =
    PNone
  | PNaN
  | PBool bool
  | PInt int
  | PStr string
  | PList "pyval list"
  | PDict "(string \<times> pyval) list"

text \<open>\<open>v[k]\<close> with a string key: KeyError on a dict without the key, TypeError on anything
  that is not a dict (lists and strings take integer indices only).\<close>

fun getitem :: "pyval \<Rightarrow> string \<Rightarrow> py_error + pyval" where
  "getitem (PDict kvs) k = (case map_of kvs k of None \<Rightarrow> Inl KeyError | Some v \<Rightarrow> Inr v)"
| "getitem v k = Inl TypeError"

text \<open>\<open>for ref in v\<close>: a list yields its elements, a dict its keys, a string its
  characters; the other values are not iterable.\<close>

fun py_iter :: "pyval \<Rightarrow> py_error + pyval list" where
  "py_iter (PList xs) = Inr xs"
| "py_iter (PDict kvs) = Inr (map (\<lambda>kv. PStr (fst kv)) kvs)"
| "py_iter (PStr cs) = Inr (map (\<lambda>c. PStr [c]) cs)"
| "py_iter v = Inl TypeError"

section \<open>Link parsing (\<open>__parse_tweet_links\<close>, the same in both classes)\<close>

text \<open>
  \<^verbatim>\<open>
  tweet_links = []
  for tweet in tweets:
      if tweet['referenced_tweets'] is not None:
          for ref in tweet['referenced_tweets']:
              new_link = {'parent_id': tweet['id'], 'id': ref['id'], 'type': ref['type']}
              tweet_links.append(new_link)
  return tweet_links
  \<close>
  \<open>parse_refs\<close> is the inner loop over the references of one tweet.
\<close>

fun parse_refs :: "pyval \<Rightarrow> pyval list \<Rightarrow> py_error + pyval list" where
  "parse_refs tweet [] = Inr []"
| "parse_refs tweet (ref # refs) =
     (case getitem tweet ''id'' of Inl e \<Rightarrow> Inl e | Inr pid \<Rightarrow>
     (case getitem ref ''id'' of Inl e \<Rightarrow> Inl e | Inr cid \<Rightarrow>
     (case getitem ref ''type'' of Inl e \<Rightarrow> Inl e | Inr ty \<Rightarrow>
     (case parse_refs tweet refs of Inl e \<Rightarrow> Inl e | Inr links \<Rightarrow>
        Inr (PDict [(''parent_id'', pid), (''id'', cid), (''type'', ty)] # links)))))"

definition tweet_links_of :: "pyval \<Rightarrow> py_error + pyval list" where
  "tweet_links_of tweet =
     (case getitem tweet ''referenced_tweets'' of
        Inl e \<Rightarrow> Inl e
      | Inr rt \<Rightarrow>
          if rt \<noteq> PNone
          then (case py_iter rt of Inl e \<Rightarrow> Inl e | Inr refs \<Rightarrow> parse_refs tweet refs)
          else Inr [])"

fun parse_tweet_links :: "pyval list \<Rightarrow> py_error + pyval list" where
  "parse_tweet_links [] = Inr []"
| "parse_tweet_links (tweet # tweets) =
     (case tweet_links_of tweet of Inl e \<Rightarrow> Inl e | Inr links \<Rightarrow>
     (case parse_tweet_links tweets of Inl e \<Rightarrow> Inl e | Inr rest \<Rightarrow> Inr (links @ rest)))"

section \<open>The remote client and the retry loop\<close>

text \<open>
  One page as the pull loops read it: \<open>response.data\<close>, the three expansion lists of
  \<open>response.includes\<close> and \<open>response.meta.get('next_token', None)\<close>. A missing or
  \<open>None\<close> list is the empty list (both are falsy, and the code only tests truthiness).
\<close>

record response =
  data :: "pyval list"
  includes_tweets :: "pyval list"
  includes_users :: "pyval list"
  includes_media :: "pyval list"
  meta_next_token :: "string option"

text \<open>
  The tweepy client (\<open>search_all_tweets\<close>, \<open>get_users_tweets\<close>) is outside the
  repository: it is a function of the requested size, the pagination token and the number
  of calls made so far, returning a page or raising.
\<close>

type_synonym client = "int \<Rightarrow> string option \<Rightarrow> nat \<Rightarrow> py_error + response"

text \<open>
  \<^verbatim>\<open>
  max_retries = 5
  retries = 0
  while retries < max_retries:
      try:
          return self.client.search_all_tweets(query, **params)
      except tweepy.errors.TwitterServerError as e:
          retries += 1
          time.sleep(0.1)
  \<close>
  The result is the raised exception, or the returned value, which is \<open>None\<close> when the
  loop ends without a \<open>return\<close>; the second component is the call counter afterwards.
\<close>

definition max_retries :: nat where
  "max_retries = 5"

function retry_loop ::
  "client \<Rightarrow> int \<Rightarrow> string option \<Rightarrow> nat \<Rightarrow> nat \<Rightarrow> (py_error + response option) \<times> nat" where
  "retry_loop cl n token retries calls =
     (if retries < max_retries then
        (case cl n token calls of
           Inr resp \<Rightarrow> (Inr (Some resp), Suc calls)
         | Inl e \<Rightarrow>
             if e = TwitterServerError
             then retry_loop cl n token (Suc retries) (Suc calls)
             else (Inl e, Suc calls))
      else (Inr None, calls))"
  by pat_completeness auto
termination
  by (relation "measure (\<lambda>(cl, n, token, retries, calls). max_retries - retries)") auto

declare retry_loop.simps [simp del]

definition search_tweets ::
  "client \<Rightarrow> int \<Rightarrow> string option \<Rightarrow> nat \<Rightarrow> (py_error + response option) \<times> nat" where
  "search_tweets cl max_results next_token calls = retry_loop cl max_results next_token 0 calls"

definition get_tweets ::
  "client \<Rightarrow> string option \<Rightarrow> int \<Rightarrow> nat \<Rightarrow> (py_error + response option) \<times> nat" where
  "get_tweets cl next_token tweets_per_query calls =
     retry_loop cl tweets_per_query next_token 0 calls"


section \<open>Data frames\<close>

text \<open>
  A pandas DataFrame built from a list of record dicts is the list of its rows, each row
  the dict itself; the records of one frame carry the same columns and hashable cells.

  \<open>concat_rows\<close> is \<open>pd.concat([df, new], axis = 0) if df is not None else new\<close>:
  the rows of \<open>new\<close> follow those of \<open>df\<close>.
\<close>

type_synonym frame = "pyval list"

definition concat_rows :: "frame option \<Rightarrow> frame \<Rightarrow> frame" where
  "concat_rows df new = (case df of None \<Rightarrow> new | Some old \<Rightarrow> old @ new)"

text \<open>\<open>df.drop_duplicates()\<close>: a row equal in every column to an earlier row is
  removed; the first occurrence stays, in place.\<close>

fun drop_seen :: "'a list \<Rightarrow> 'a list \<Rightarrow> 'a list" where
  "drop_seen seen [] = []"
| "drop_seen seen (x # xs) =
     (if x \<in> set seen then drop_seen seen xs else x # drop_seen (x # seen) xs)"

definition drop_duplicates :: "'a list \<Rightarrow> 'a list" where
  "drop_duplicates xs = drop_seen [] xs"

text \<open>
  \<open>concat_columns\<close> is \<open>pd.concat([df, new], axis = 1) if df is not None else new\<close>,
  as \<open>Timeline.pull\<close> calls it: both frames are indexed \<open>0, 1, \<dots>\<close>, the result has
  one row per index of either frame, holding the cells of \<open>df\<close> followed by the cells of
  \<open>new\<close>, with NaN under the columns of a frame that has no row at that index.
\<close>

definition cells :: "pyval \<Rightarrow> (string \<times> pyval) list" where
  "cells row = (case row of PDict kvs \<Rightarrow> kvs | _ \<Rightarrow> [])"

definition nan_row :: "frame \<Rightarrow> (string \<times> pyval) list" where
  "nan_row df = (case df of [] \<Rightarrow> [] | r # _ \<Rightarrow> map (\<lambda>kv. (fst kv, PNaN)) (cells r))"

definition row_at :: "frame \<Rightarrow> nat \<Rightarrow> (string \<times> pyval) list" where
  "row_at df i = (if i < length df then cells (df ! i) else nan_row df)"

definition concat_columns :: "frame option \<Rightarrow> frame \<Rightarrow> frame" where
  "concat_columns df new =
     (case df of
        None \<Rightarrow> new
      | Some old \<Rightarrow>
          map (\<lambda>i. PDict (row_at old i @ row_at new i)) [0 ..< max (length old) (length new)])"

text \<open>\<open>df[col] = v\<close>: the column is overwritten where it exists and added last where it
  does not.\<close>

fun assign_cell :: "string \<Rightarrow> pyval \<Rightarrow> (string \<times> pyval) list \<Rightarrow> (string \<times> pyval) list" where
  "assign_cell col v [] = [(col, v)]"
| "assign_cell col v (kv # kvs) =
     (if fst kv = col then (col, v) # kvs else kv # assign_cell col v kvs)"

definition set_column :: "string \<Rightarrow> pyval \<Rightarrow> frame \<Rightarrow> frame" where
  "set_column col v df = map (\<lambda>row. PDict (assign_cell col v (cells row))) df"

section \<open>Session state\<close>

text \<open>
  The local variables of a pull loop, the files written so far (a file holds the frame
  last written to it; \<open>to_csv\<close> and \<open>to_json\<close> replace the file), and two counters
  that the code does not keep: the calls made to the remote client and the fetch cycles
  (calls of \<open>search_tweets\<close> or \<open>get_tweets\<close>) of the loop.
\<close>

record session =
  next_token :: "string option"
  num_collected :: nat
  df_links :: "frame option"
  df_refs :: "frame option"
  df_users :: "frame option"
  df_tweets :: "frame option"
  df_media :: "frame option"
  files :: "string \<rightharpoonup> frame"
  calls :: nat
  fetches :: nat

definition init_session :: session where
  "init_session =
     \<lparr>next_token = None, num_collected = 0, df_links = None, df_refs = None,
      df_users = None, df_tweets = None, df_media = None, files = Map.empty,
      calls = 0, fetches = 0\<rparr>"

text \<open>
  What a pull object holds and borrows: the tweepy client, \<open>query_params.tweet_fields\<close>
  (a list of field names), and two conversions of the twitteralchemy library, which is
  outside the repository: \<open>to_dict\<close> is \<open>twalc.Tweet(**tw).to_dict()\<close>, and
  \<open>obj_row\<close> is the row pandas builds from a \<open>twalc.Tweet\<close> or \<open>twalc.User\<close> object.
  \<open>get_user\<close> is the outcome of \<open>client.get_user(username=handle).data.id\<close>.
  \<open>py_format\<close> is Python's string operator \<open>template % arg\<close>; it is consulted only
  for a template that holds a \<open>%\<close> besides the one directive that the code writes.
\<close>

record env =
  tweepy_client :: client
  tweet_fields :: "string list"
  to_dict :: "pyval \<Rightarrow> pyval"
  obj_row :: "pyval \<Rightarrow> pyval"
  get_user :: "py_error + int"
  py_format :: "string \<Rightarrow> string \<Rightarrow> py_error + string"

definition has_refs :: "env \<Rightarrow> bool" where
  "has_refs ev = (''referenced_tweets'' \<in> set (tweet_fields ev))"

text \<open>
  \<open>save_path\<close> is the template \<open>f"{output_dir}/data_%s.{save_format}"\<close>, and
  \<open>save_path_for\<close> is \<open>save_path % kind\<close>. When the directory and the format hold
  no \<open>%\<close>, the template has the single directive \<open>%s\<close> and the result is the template
  with the kind in its place. Otherwise the outcome (a ValueError or a TypeError for a
  directive that is malformed or wants another argument, or a path in which \<open>%%\<close> has
  become \<open>%\<close>) is that of Python's operator on the whole template.
\<close>

definition save_path :: "string \<Rightarrow> string \<Rightarrow> string" where
  "save_path output_dir save_format = output_dir @ ''/data_%s.'' @ save_format"

definition save_path_for :: "env \<Rightarrow> string \<Rightarrow> string \<Rightarrow> string \<Rightarrow> py_error + string" where
  "save_path_for ev output_dir save_format kind =
     (if CHR ''%'' \<in> set output_dir \<or> CHR ''%'' \<in> set save_format
      then py_format ev (save_path output_dir save_format) kind
      else Inr (output_dir @ ''/data_'' @ kind @ ''.'' @ save_format))"

text \<open>\<open>df.to_csv(path, \<dots>)\<close> and \<open>df.to_json(path, \<dots>)\<close>: the attribute lookup
  fails on \<open>None\<close>, then the path argument is evaluated, then the file is replaced.\<close>

definition to_file ::
  "frame option \<Rightarrow> py_error + string \<Rightarrow> (string \<rightharpoonup> frame) \<Rightarrow> py_error + (string \<rightharpoonup> frame)" where
  "to_file df path fs =
     (case df of
        None \<Rightarrow> Inl AttributeError
      | Some rows \<Rightarrow> (case path of Inl e \<Rightarrow> Inl e | Inr p \<Rightarrow> Inr (fs(p \<mapsto> rows))))"

definition to_file_if ::
  "bool \<Rightarrow> frame option \<Rightarrow> py_error + string \<Rightarrow> (string \<rightharpoonup> frame)
     \<Rightarrow> py_error + (string \<rightharpoonup> frame)" where
  "to_file_if c df path fs = (if c then to_file df path fs else Inr fs)"

datatype 'a ctl = Continue 'a | Break 'a


section \<open>\<open>TweetSearch.pull\<close>\<close>

subsection \<open>Decomposing one page (lines 83--105)\<close>

text \<open>
  The per-page tables: the expansion lists as dicts, the links parsed from the raw
  tweets when \<open>referenced_tweets\<close> is among the requested tweet fields (\<open>links\<close> is not
  assigned otherwise), and the tweets converted by twitteralchemy.
\<close>

record page_tables =
  pg_tweets :: frame
  pg_refs :: frame
  pg_users :: frame
  pg_media :: frame
  pg_links :: "frame option"

definition decompose :: "env \<Rightarrow> response \<Rightarrow> py_error + page_tables" where
  "decompose ev resp =
     (case (if has_refs ev
            then (case parse_tweet_links (data resp) of
                    Inl e \<Rightarrow> Inl e
                  | Inr links \<Rightarrow> Inr (Some links))
            else Inr None) of
        Inl e \<Rightarrow> Inl e
      | Inr links \<Rightarrow>
          Inr \<lparr>pg_tweets = map (to_dict ev) (data resp),
               pg_refs = includes_tweets resp,
               pg_users = includes_users resp,
               pg_media = includes_media resp,
               pg_links = links\<rparr>)"

subsection \<open>Merging the page into the accumulated frames (lines 107--127)\<close>

definition merge :: "page_tables \<Rightarrow> session \<Rightarrow> session" where
  "merge pg s =
     s\<lparr>df_refs :=
         (if pg_refs pg \<noteq> []
          then Some (drop_duplicates (concat_rows (df_refs s) (pg_refs pg)))
          else df_refs s),
       df_users :=
         (if pg_users pg \<noteq> []
          then Some (drop_duplicates (concat_rows (df_users s) (pg_users pg)))
          else df_users s),
       df_media :=
         (if pg_media pg \<noteq> []
          then Some (drop_duplicates (concat_rows (df_media s) (pg_media pg)))
          else df_media s),
       df_links :=
         (case pg_links pg of
            Some links \<Rightarrow> Some (drop_duplicates (concat_rows (df_links s) links))
          | None \<Rightarrow> df_links s),
       df_tweets := Some (concat_rows (df_tweets s) (pg_tweets pg))\<rparr>"

subsection \<open>Writing the frames (lines 129--162)\<close>

text \<open>
  The \<open>csv\<close> branch writes, in this order, the frames of the expansion kinds present on
  this page, the links when they were requested, and the tweets. The \<open>json\<close> branch
  starts by testing \<open>inc_tweets\<close>, a name that \<open>TweetSearch.pull\<close> never binds. Any
  other format writes nothing.
\<close>

definition flush :: "env \<Rightarrow> string \<Rightarrow> string \<Rightarrow> page_tables \<Rightarrow> session \<Rightarrow> py_error + session" where
  "flush ev output_dir save_format pg s =
     (if save_format = ''csv'' then
        (case to_file_if (pg_refs pg \<noteq> []) (df_refs s)
                (save_path_for ev output_dir save_format ''ref_tweets'') (files s) of
           Inl e \<Rightarrow> Inl e | Inr fs1 \<Rightarrow>
        (case to_file_if (pg_users pg \<noteq> []) (df_users s)
                (save_path_for ev output_dir save_format ''users'') fs1 of
           Inl e \<Rightarrow> Inl e | Inr fs2 \<Rightarrow>
        (case to_file_if (pg_media pg \<noteq> []) (df_media s)
                (save_path_for ev output_dir save_format ''media'') fs2 of
           Inl e \<Rightarrow> Inl e | Inr fs3 \<Rightarrow>
        (case to_file_if (has_refs ev) (df_links s)
                (save_path_for ev output_dir save_format ''ref_links'') fs3 of
           Inl e \<Rightarrow> Inl e | Inr fs4 \<Rightarrow>
        (case to_file (df_tweets s)
                (save_path_for ev output_dir save_format ''tweets'') fs4 of
           Inl e \<Rightarrow> Inl e | Inr fs5 \<Rightarrow> Inr (s\<lparr>files := fs5\<rparr>))))))
      else if save_format = ''json'' then Inl NameError
      else Inr s)"

subsection \<open>One iteration of the loop over the planned batches (lines 67--175)\<close>

text \<open>The body of \<open>if tweets:\<close>, skipped for a page without tweets.\<close>

definition process_page :: "env \<Rightarrow> string \<Rightarrow> string \<Rightarrow> response \<Rightarrow> session \<Rightarrow> py_error + session" where
  "process_page ev output_dir save_format resp s =
     (if data resp \<noteq> [] then
        (case decompose ev resp of Inl e \<Rightarrow> Inl e | Inr pg \<Rightarrow>
        (case flush ev output_dir save_format pg (merge pg s) of Inl e \<Rightarrow> Inl e | Inr s1 \<Rightarrow>
           Inr (s1\<lparr>num_collected := num_collected s1 + length (pg_tweets pg)\<rparr>)))
      else Inr s)"

text \<open>
  The two caught exceptions skip to the next batch with the token unchanged; any other
  exception leaves \<open>pull\<close>. A returned \<open>None\<close> fails at \<open>response.data\<close>. After the
  page, the token is read from the response, and a missing token ends the loop.
\<close>

definition pull_step :: "env \<Rightarrow> string \<Rightarrow> string \<Rightarrow> int \<Rightarrow> session \<Rightarrow> py_error + session ctl" where
  "pull_step ev output_dir save_format batch s =
     (case search_tweets (tweepy_client ev) batch (next_token s) (calls s) of
        (Inl e, calls') \<Rightarrow>
          if e = EmptyTwitterResponseException \<or> e = MaxRetries
          then Inr (Continue (s\<lparr>calls := calls', fetches := Suc (fetches s)\<rparr>))
          else Inl e
      | (Inr None, calls') \<Rightarrow> Inl AttributeError
      | (Inr (Some resp), calls') \<Rightarrow>
          (case process_page ev output_dir save_format resp s of
             Inl e \<Rightarrow> Inl e
           | Inr s1 \<Rightarrow>
               let s2 = s1\<lparr>next_token := meta_next_token resp, calls := calls',
                            fetches := Suc (fetches s)\<rparr>
               in Inr (if meta_next_token resp = None then Break s2 else Continue s2)))"

fun pull_loop :: "env \<Rightarrow> string \<Rightarrow> string \<Rightarrow> int list \<Rightarrow> session \<Rightarrow> py_error + session" where
  "pull_loop ev output_dir save_format [] s = Inr s"
| "pull_loop ev output_dir save_format (batch # batches) s =
     (case pull_step ev output_dir save_format batch s of
        Inl e \<Rightarrow> Inl e
      | Inr (Break s') \<Rightarrow> Inr s'
      | Inr (Continue s') \<Rightarrow> pull_loop ev output_dir save_format batches s')"

definition pull :: "env \<Rightarrow> string \<Rightarrow> string \<Rightarrow> int \<Rightarrow> int \<Rightarrow> py_error + session" where
  "pull ev output_dir save_format max_results batch_size =
     (case plan_batches max_results batch_size of
        Inl e \<Rightarrow> Inl e
      | Inr batches \<Rightarrow> pull_loop ev output_dir save_format batches init_session)"

section \<open>\<open>Timeline.pull\<close>\<close>

text \<open>
  The body of \<open>if tweets:\<close> in \<open>Timeline.pull\<close> (lines 79--147). The expansions are
  turned into twitteralchemy objects, every frame is extended with \<open>axis = 1\<close> and without
  \<open>drop_duplicates\<close>, media are not collected, the users go to the \<open>authors\<close> file, and
  the \<open>json\<close> branch writes the tweets to the unformatted template path.
\<close>

definition timeline_merge :: "env \<Rightarrow> string \<Rightarrow> bool \<Rightarrow> string \<Rightarrow> response \<Rightarrow> frame option \<Rightarrow> session \<Rightarrow> session" where
  "timeline_merge ev handle output_handle handle_col resp links s =
     (let df_tw = concat_columns (df_tweets s) (map (to_dict ev) (data resp))
      in s\<lparr>df_refs :=
             (if includes_tweets resp \<noteq> []
              then Some (concat_columns (df_refs s) (map (obj_row ev) (includes_tweets resp)))
              else df_refs s),
           df_users :=
             (if includes_users resp \<noteq> []
              then Some (concat_columns (df_users s) (map (obj_row ev) (includes_users resp)))
              else df_users s),
           df_links :=
             (case links of
                Some ls \<Rightarrow> Some (concat_columns (df_links s) ls)
              | None \<Rightarrow> df_links s),
           df_tweets :=
             Some (if output_handle then set_column handle_col (PStr handle) df_tw else df_tw)\<rparr>)"

definition timeline_flush :: "env \<Rightarrow> string \<Rightarrow> string \<Rightarrow> response \<Rightarrow> session \<Rightarrow> py_error + session" where
  "timeline_flush ev save_dir save_format resp s =
     (if save_format = ''csv'' \<or> save_format = ''json'' then
        (case to_file_if (includes_tweets resp \<noteq> []) (df_refs s)
                (save_path_for ev save_dir save_format ''ref_tweets'') (files s) of
           Inl e \<Rightarrow> Inl e | Inr fs1 \<Rightarrow>
        (case to_file_if (includes_users resp \<noteq> []) (df_users s)
                (save_path_for ev save_dir save_format ''authors'') fs1 of
           Inl e \<Rightarrow> Inl e | Inr fs2 \<Rightarrow>
        (case to_file_if (has_refs ev) (df_links s)
                (save_path_for ev save_dir save_format ''ref_links'') fs2 of
           Inl e \<Rightarrow> Inl e | Inr fs3 \<Rightarrow>
        (case to_file (df_tweets s)
                (if save_format = ''csv''
                 then save_path_for ev save_dir save_format ''tweets''
                 else Inr (save_path save_dir save_format)) fs3 of
           Inl e \<Rightarrow> Inl e | Inr fs4 \<Rightarrow> Inr (s\<lparr>files := fs4\<rparr>)))))
      else Inr s)"

definition timeline_page ::
  "env \<Rightarrow> string \<Rightarrow> string \<Rightarrow> string \<Rightarrow> bool \<Rightarrow> string \<Rightarrow> response \<Rightarrow> session \<Rightarrow> py_error + session" where
  "timeline_page ev handle save_dir save_format output_handle handle_col resp s =
     (if data resp \<noteq> [] then
        (case (if has_refs ev
               then (case parse_tweet_links (data resp) of
                       Inl e \<Rightarrow> Inl e
                     | Inr ls \<Rightarrow> Inr (Some ls))
               else Inr None) of
           Inl e \<Rightarrow> Inl e | Inr links \<Rightarrow>
        (case timeline_flush ev save_dir save_format resp
                (timeline_merge ev handle output_handle handle_col resp links s) of
           Inl e \<Rightarrow> Inl e | Inr s1 \<Rightarrow>
             Inr (s1\<lparr>num_collected := num_collected s1 + length (data resp)\<rparr>)))
      else Inr s)"

text \<open>One iteration of \<open>while not finished\<close>: \<open>Break\<close> is \<open>finished = True\<close>.\<close>

definition timeline_step ::
  "env \<Rightarrow> string \<Rightarrow> string \<Rightarrow> string \<Rightarrow> bool \<Rightarrow> string \<Rightarrow> int \<Rightarrow> session \<Rightarrow> py_error + session ctl" where
  "timeline_step ev handle save_dir save_format output_handle handle_col tweets_per_query s =
     (case get_tweets (tweepy_client ev) (next_token s) tweets_per_query (calls s) of
        (Inl e, calls') \<Rightarrow>
          if e = EmptyTwitterResponseException \<or> e = MaxRetries
          then Inr (Continue (s\<lparr>calls := calls', fetches := Suc (fetches s)\<rparr>))
          else Inl e
      | (Inr None, calls') \<Rightarrow> Inl AttributeError
      | (Inr (Some resp), calls') \<Rightarrow>
          (case timeline_page ev handle save_dir save_format output_handle handle_col resp s of
             Inl e \<Rightarrow> Inl e
           | Inr s1 \<Rightarrow>
               let s2 = s1\<lparr>next_token := meta_next_token resp, calls := calls',
                            fetches := Suc (fetches s)\<rparr>
               in Inr (if meta_next_token resp = None then Break s2 else Continue s2)))"

text \<open>
  The loop has no bound of its own: it runs until a page comes without a token. The
  first argument is the number of iterations allowed; \<open>None\<close> says that they did not
  suffice.
\<close>

fun timeline_loop ::
  "nat \<Rightarrow> env \<Rightarrow> string \<Rightarrow> string \<Rightarrow> string \<Rightarrow> bool \<Rightarrow> string \<Rightarrow> int \<Rightarrow> session
     \<Rightarrow> (py_error + session) option" where
  "timeline_loop 0 ev handle save_dir save_format output_handle handle_col tpq s = None"
| "timeline_loop (Suc fuel) ev handle save_dir save_format output_handle handle_col tpq s =
     (case timeline_step ev handle save_dir save_format output_handle handle_col tpq s of
        Inl e \<Rightarrow> Some (Inl e)
      | Inr (Break s') \<Rightarrow> Some (Inr s')
      | Inr (Continue s') \<Rightarrow>
          timeline_loop fuel ev handle save_dir save_format output_handle handle_col tpq s')"

text \<open>A failed user lookup is raised again before the loop starts. The directory
  \<open>{output_dir}/{handle}\<close> is taken to be new, so that \<open>os.mkdir\<close> succeeds.\<close>

definition timeline_pull ::
  "nat \<Rightarrow> env \<Rightarrow> string \<Rightarrow> string \<Rightarrow> string \<Rightarrow> bool \<Rightarrow> string \<Rightarrow> int
     \<Rightarrow> (py_error + session) option" where
  "timeline_pull fuel ev handle output_dir save_format output_handle handle_col tweets_per_query =
     (case get_user ev of
        Inl e \<Rightarrow> Some (Inl e)
      | Inr user_id \<Rightarrow>
          timeline_loop fuel ev handle (output_dir @ ''/'' @ handle) save_format
            output_handle handle_col tweets_per_query init_session)"

section \<open>Remote sources and sample records\<close>

text \<open>
  A remote source that holds a fixed sequence of pages answers the \<open>i\<close>-th call with the
  \<open>i\<close>-th page, whatever is asked, and has nothing more to give afterwards. A source in
  a lasting outage answers every call with the transient server error.
\<close>

definition serve :: "response list \<Rightarrow> client" where
  "serve pages n token i = (if i < length pages then Inr (pages ! i) else Inl OtherError)"

definition outage :: client where
  "outage n token i = Inl TwitterServerError"

definition sample_env :: "client \<Rightarrow> string list \<Rightarrow> env" where
  "sample_env cl fs =
     \<lparr>tweepy_client = cl, tweet_fields = fs, to_dict = (\<lambda>tw. tw),
      obj_row = (\<lambda>ob. ob), get_user = Inr 1,
      py_format = (\<lambda>template arg. Inl ValueError)\<rparr>"

definition tweet_plain :: "int \<Rightarrow> pyval" where
  "tweet_plain i = PDict [(''id'', PInt i), (''referenced_tweets'', PNone)]"

definition tweet_quoting :: "int \<Rightarrow> int \<Rightarrow> pyval" where
  "tweet_quoting i j =
     PDict [(''id'', PInt i),
            (''referenced_tweets'', PList [PDict [(''id'', PInt j), (''type'', PStr ''quoted'')]])]"

definition tweet_bare :: "int \<Rightarrow> pyval" where
  "tweet_bare i = PDict [(''id'', PInt i)]"

definition user_rec :: "int \<Rightarrow> string \<Rightarrow> pyval" where
  "user_rec i name = PDict [(''id'', PInt i), (''name'', PStr name)]"

definition page :: "pyval list \<Rightarrow> pyval list \<Rightarrow> string option \<Rightarrow> response" where
  "page tweets users token =
     \<lparr>data = tweets, includes_tweets = [], includes_users = users, includes_media = [],
      meta_next_token = token\<rparr>"

section \<open>Observations on a session\<close>

text \<open>The row count of the tweets frame, the absence of equal rows in a frame, and the
  state that an iteration leaves, whether the loop goes on or stops.\<close>

definition tweet_rows :: "session \<Rightarrow> nat" where
  "tweet_rows s = (case df_tweets s of None \<Rightarrow> 0 | Some rows \<Rightarrow> length rows)"

definition no_dup :: "frame option \<Rightarrow> bool" where
  "no_dup df = (case df of None \<Rightarrow> True | Some rows \<Rightarrow> distinct rows)"

definition secondary_distinct :: "session \<Rightarrow> bool" where
  "secondary_distinct s =
     (no_dup (df_refs s) \<and> no_dup (df_users s) \<and> no_dup (df_media s) \<and> no_dup (df_links s))"

text \<open>The rows of a frame that may not exist yet, and the relation between an earlier
  and a later frame in which the rows of the earlier one are still there, in place, at
  the head of the later one; \<open>secondary_kept\<close> says so of the four secondary frames of
  two states of a session.\<close>

definition rows_of :: "frame option \<Rightarrow> frame" where
  "rows_of df = (case df of None \<Rightarrow> [] | Some rows \<Rightarrow> rows)"

definition kept :: "frame option \<Rightarrow> frame option \<Rightarrow> bool" where
  "kept old new = (take (length (rows_of old)) (rows_of new) = rows_of old)"

definition secondary_kept :: "session \<Rightarrow> session \<Rightarrow> bool" where
  "secondary_kept s s' =
     (kept (df_refs s) (df_refs s') \<and> kept (df_users s) (df_users s')
      \<and> kept (df_media s) (df_media s') \<and> kept (df_links s) (df_links s'))"

fun ctl_state :: "'a ctl \<Rightarrow> 'a" where
  "ctl_state (Continue s) = s"
| "ctl_state (Break s) = s"

definition file_at :: "string \<Rightarrow> session \<Rightarrow> frame option" where
  "file_at path s = files s path"

text \<open>The five files of a search session in the \<open>csv\<close> format, and the agreement of each
  with the accumulated frame of its kind: the file is absent while the frame is \<open>None\<close>,
  and holds the whole frame afterwards.\<close>

definition csv_paths :: "string \<Rightarrow> string list" where
  "csv_paths output_dir =
     [output_dir @ ''/data_tweets.csv'', output_dir @ ''/data_users.csv'',
      output_dir @ ''/data_ref_tweets.csv'', output_dir @ ''/data_ref_links.csv'',
      output_dir @ ''/data_media.csv'']"

definition frames_on_disk :: "string \<Rightarrow> session \<Rightarrow> bool" where
  "frames_on_disk output_dir s =
     (file_at (output_dir @ ''/data_tweets.csv'') s = df_tweets s
      \<and> file_at (output_dir @ ''/data_users.csv'') s = df_users s
      \<and> file_at (output_dir @ ''/data_ref_tweets.csv'') s = df_refs s
      \<and> file_at (output_dir @ ''/data_ref_links.csv'') s = df_links s
      \<and> file_at (output_dir @ ''/data_media.csv'') s = df_media s)"



section \<open>Properties of the batch plan\<close>

lemma set_item_Nil: "set_item [] i v = Inl IndexError"
  by (simp add: set_item_def)

lemma set_item_last: "set_item (xs @ [x]) (- 1) v = Inr (xs @ [v])"
  by (simp add: set_item_def)

lemma set_item_second_last: "set_item (xs @ [x, y]) (- 2) v = Inr (xs @ [v, y])"
  by (simp add: set_item_def)

lemma replicate_snoc: "replicate (Suc k) c = replicate k c @ [c]"
  by (simp add: replicate_append_same)

text \<open>A total below the batch size gives one batch: the total itself, or 10 when the
  max_results is smaller.\<close>

lemma plan_single:
  "0 < c \<Longrightarrow> 0 \<le> t \<Longrightarrow> t < c \<Longrightarrow> plan_batches t c = Inr [if t < 10 then 10 else t]"
  by (simp add: plan_batches_def set_item_def Let_def)

text \<open>A total of at least the batch size gives \<open>t div c\<close> full batches and the remainder,
  or, for a remainder below 10, a last batch of 10 whose excess is taken from the batch
  before it.\<close>

lemma plan_many:
  assumes c: "0 < c" and t: "c \<le> t"
  shows "plan_batches t c =
     Inr (if t mod c < 10
          then replicate (nat (t div c) - 1) c @ [c - (10 - t mod c), 10]
          else replicate (nat (t div c)) c @ [t mod c])"
proof -
  obtain k where q': "nat (t div c) = Suc k"
  proof -
    have "0 < t div c"
      using c t by (simp only: pos_imp_zdiv_pos_iff)
    then have "0 < nat (t div c)" by simp
    then show ?thesis using that by (cases "nat (t div c)") simp_all
  qed
  then have q: "1 \<le> t div c" by linarith
  have n: "nat (t div c + 1) = Suc (Suc k)"
    using q q' by linarith
  have r: "replicate (Suc (Suc k)) c = replicate (Suc k) c @ [c]"
    by (rule replicate_snoc)
  have a: "set_item (replicate (Suc (Suc k)) c) (- 1) v = Inr (replicate (Suc k) c @ [v])" for v
    by (simp only: r set_item_last)
  have b: "set_item (replicate (Suc k) c @ [w]) (- 2) v = Inr (replicate k c @ [v, w])" for v w
  proof -
    have "replicate (Suc k) c @ [w] = replicate k c @ [c, w]"
      by (simp only: replicate_snoc) simp
    then show ?thesis by (simp only: set_item_second_last)
  qed
  have nz: "c \<noteq> 0" using c by simp
  have gt: "t div c + 1 > 1" using q by simp
  show ?thesis
    unfolding plan_batches_def Let_def n a q'
    by (simp only: nz gt b if_False if_True sum.case diff_Suc_1 if_distrib [of Inr])
qed

lemma plan_negative:
  assumes c: "0 < c" and t: "t < 0"
  shows "plan_batches t c = Inl IndexError"
proof -
  from c t have "t div c < 0" by (simp only: pos_imp_zdiv_neg_iff)
  then have "nat (t div c + 1) = 0" by simp
  then show ?thesis
    using c by (simp add: plan_batches_def Let_def set_item_Nil)
qed

lemma sum_list_replicate_int: "sum_list (replicate k (c::int)) = int k * c"
  by (induction k) (simp_all add: algebra_simps)

lemma plan_many_sum:
  assumes c: "0 < c" and t: "c \<le> t" and bs: "plan_batches t c = Inr bs"
  shows "sum_list bs = t"
proof -
  have "0 < t div c"
    using c t by (simp only: pos_imp_zdiv_pos_iff)
  then have k: "int (nat (t div c)) = t div c" and k1: "int (nat (t div c) - 1) = t div c - 1"
    by linarith+
  have dm: "t div c * c + t mod c = t" by simp
  show ?thesis
  proof (cases "t mod c < 10")
    case True
    define j where "j = nat (t div c) - 1"
    have j: "int j = t div c - 1"
      unfolding j_def by (rule k1)
    from True bs have "bs = replicate j c @ [c - (10 - t mod c), 10]"
      by (simp add: plan_many [OF c t] j_def)
    then have "sum_list bs = (t div c - 1) * c + (c - (10 - t mod c)) + 10"
      by (simp add: sum_list_replicate_int j)
    also have "\<dots> = t div c * c + t mod c" by (simp add: algebra_simps)
    finally show ?thesis using dm by simp
  next
    case False
    define j where "j = nat (t div c)"
    have j: "int j = t div c"
      unfolding j_def by (rule k)
    from False bs have "bs = replicate j c @ [t mod c]"
      by (simp add: plan_many [OF c t] j_def)
    then have "sum_list bs = t div c * c + t mod c"
      by (simp add: sum_list_replicate_int j)
    then show ?thesis using dm by simp
  qed
qed

text \<open>
  Claim C1, which the code does not meet. The code forces the last batch up to 10 and
  takes the excess from the batch before it without looking at what that leaves: a total
  of 15 in batches of 15 is planned as a batch of 5 followed by a batch of 10, and a
  total of 30 in batches of 10 as \<open>[10, 10, 0, 10]\<close>, with a batch of 0. Both batch
  sizes are at least 10, the least size that the code itself lets a call ask for.
\<close>

theorem plan_batches_borrow_below_floor:
  "(0::int) < 15 \<and> \<not> (15::int) < 10 \<and> plan_batches 15 15 = Inr [5, 10] \<and> (5::int) < 10
   \<and> plan_batches 30 10 = Inr [10, 10, 0, 10] \<and> (0::int) < 10"
  by code_simp

text \<open>The defect shows for every batch size below 20 and for none from 20 on: there the
  plan exists, each of its elements lies between 10 and the batch size, and a total below
  10 gives the plan \<open>[10]\<close>.\<close>

lemma plan_range_from_20:
  assumes "0 < max_results" and "20 \<le> batch_size"
  shows "\<exists>bs. plan_batches max_results batch_size = Inr bs
           \<and> (\<forall>b \<in> set bs. 10 \<le> b \<and> b \<le> batch_size)
           \<and> (max_results < 10 \<longrightarrow> bs = [10])"
proof (cases "max_results < batch_size")
  case True
  with assms show ?thesis by (simp add: plan_single)
next
  case False
  then have t: "batch_size \<le> max_results" by simp
  have c: "0 < batch_size" using assms by simp
  define m where "m = max_results mod batch_size"
  have m: "0 \<le> m" "m < batch_size"
    using c by (simp_all add: m_def)
  have "plan_batches max_results batch_size =
     Inr (if m < 10
          then replicate (nat (max_results div batch_size) - 1) batch_size @ [batch_size - (10 - m), 10]
          else replicate (nat (max_results div batch_size)) batch_size @ [m])"
    unfolding m_def by (rule plan_many [OF c t])
  then show ?thesis
    using assms t m by auto
qed

lemma plan_batches_small_cap:
  assumes "0 < batch_size" and "batch_size < 20"
  shows "plan_batches batch_size batch_size = Inr [batch_size - 10, 10]" and "batch_size - 10 < 10"
  using assms plan_many [of batch_size batch_size] by simp_all



text \<open>
  Claim C2. For every total above 0 and every batch size above 0 the plan exists and
  sums to at least the total; a total of 250 in batches of 100 is planned as
  \<open>[100, 100, 50]\<close>, and a total of 205 as \<open>[100, 95, 10]\<close>.
\<close>

theorem plan_batches_sum:
  assumes "0 < max_results" and "0 < batch_size"
  shows "(\<exists>bs. plan_batches max_results batch_size = Inr bs \<and> max_results \<le> sum_list bs)
           \<and> plan_batches 250 100 = Inr [100, 100, 50]
           \<and> plan_batches 205 100 = Inr [100, 95, 10]"
proof -
  have "\<exists>bs. plan_batches max_results batch_size = Inr bs \<and> max_results \<le> sum_list bs"
  proof (cases "max_results < batch_size")
    case True
    with assms show ?thesis by (simp add: plan_single)
  next
    case False
    then have t: "batch_size \<le> max_results" by simp
    obtain bs where bs: "plan_batches max_results batch_size = Inr bs"
      by (simp add: plan_many [OF assms(2) t])
    then have "sum_list bs = max_results"
      by (rule plan_many_sum [OF assms(2) t])
    with bs show ?thesis by simp
  qed
  moreover have "plan_batches 250 100 = Inr [100, 100, 50]"
    by code_simp
  moreover have "plan_batches 205 100 = Inr [100, 95, 10]"
    by code_simp
  ultimately show ?thesis by simp
qed

theorem plan_batches_sum_witness:
  "(0::int) < 7 \<and> (0::int) < 5 \<and> plan_batches 7 5 = Inr [- 3, 10]
     \<and> (\<exists>bs. plan_batches 7 5 = Inr bs \<and> 7 \<le> sum_list bs)"
proof -
  have "plan_batches 7 5 = Inr [- 3, 10]"
    by code_simp
  then show ?thesis
    using plan_batches_sum [of 7 5] by simp
qed

text \<open>
  Claim C9, as amended. The planning step has no check of its arguments and no
  InvalidArgument error. With a batch size above 0, a total below 0 gives an empty batch
  list, and the assignment to its last element raises IndexError; a total of 0 is
  planned as \<open>[10]\<close>.
\<close>

theorem plan_batches_nonpositive:
  assumes "max_results \<le> 0" and "0 < batch_size"
  shows "plan_batches max_results batch_size = (if max_results < 0 then Inl IndexError else Inr [10])"
proof (cases "max_results < 0")
  case True
  then show ?thesis by (simp add: plan_negative [OF assms(2)])
next
  case False
  with assms have "max_results = 0" by simp
  then show ?thesis using assms(2) by (simp add: plan_single)
qed

theorem plan_batches_nonpositive_witness:
  "(- 5::int) \<le> 0 \<and> (0::int) < 100 \<and> plan_batches (- 5) 100 = Inl IndexError"
  using plan_batches_nonpositive [of "- 5" 100] by simp

text \<open>The claim as stated fails at a total of 0: the call returns a plan.\<close>

theorem plan_batches_zero_counterexample:
  "(0::int) \<le> 0 \<and> plan_batches 0 100 = Inr [10]"
  by (simp add: plan_batches_def set_item_def Let_def)


section \<open>Properties of link parsing\<close>

lemma getitem_Inr:
  "getitem t k = Inr v \<Longrightarrow> \<exists>kvs. t = PDict kvs \<and> map_of kvs k = Some v"
  by (cases t) (auto split: option.splits)

lemma parse_refs_parent:
  "parse_refs tweet refs = Inr links \<Longrightarrow> l \<in> set links \<Longrightarrow>
     \<exists>v. getitem tweet ''id'' = Inr v \<and> getitem l ''parent_id'' = Inr v"
proof (induction refs arbitrary: links)
  case Nil
  then show ?case by simp
next
  case (Cons ref refs)
  from Cons.prems(1) obtain pid cid ty rest where
    pid: "getitem tweet ''id'' = Inr pid" and
    rest: "parse_refs tweet refs = Inr rest" and
    links: "links = PDict [(''parent_id'', pid), (''id'', cid), (''type'', ty)] # rest"
    by (auto split: sum.splits)
  show ?case
  proof (cases "l \<in> set rest")
    case True
    then show ?thesis by (rule Cons.IH [OF rest])
  next
    case False
    with Cons.prems(2) links have "l = PDict [(''parent_id'', pid), (''id'', cid), (''type'', ty)]"
      by simp
    with pid show ?thesis by simp
  qed
qed

lemma tweet_links_of_parent:
  "tweet_links_of tweet = Inr links \<Longrightarrow> l \<in> set links \<Longrightarrow>
     \<exists>v. getitem tweet ''id'' = Inr v \<and> getitem l ''parent_id'' = Inr v"
  unfolding tweet_links_of_def
  by (auto split: sum.splits if_splits dest: parse_refs_parent)

lemma tweet_links_of_key:
  "tweet_links_of tweet = Inr links \<Longrightarrow> \<exists>rt. getitem tweet ''referenced_tweets'' = Inr rt"
  unfolding tweet_links_of_def by (auto split: sum.splits)

lemma parse_tweet_links_parent:
  "parse_tweet_links tweets = Inr links \<Longrightarrow> l \<in> set links \<Longrightarrow>
     \<exists>t \<in> set tweets. \<exists>v. getitem t ''id'' = Inr v \<and> getitem l ''parent_id'' = Inr v"
proof (induction tweets arbitrary: links)
  case Nil
  then show ?case by simp
next
  case (Cons tweet tweets)
  from Cons.prems(1) obtain ls rest where
    ls: "tweet_links_of tweet = Inr ls" and
    rest: "parse_tweet_links tweets = Inr rest" and
    links: "links = ls @ rest"
    by (auto split: sum.splits)
  from Cons.prems(2) links consider "l \<in> set ls" | "l \<in> set rest" by auto
  then show ?case
  proof cases
    case 1
    from tweet_links_of_parent [OF ls 1] show ?thesis by auto
  next
    case 2
    from Cons.IH [OF rest 2] show ?thesis by auto
  qed
qed

lemma parse_tweet_links_keys:
  "parse_tweet_links tweets = Inr links \<Longrightarrow> t \<in> set tweets \<Longrightarrow>
     \<exists>rt. getitem t ''referenced_tweets'' = Inr rt"
proof (induction tweets arbitrary: links)
  case Nil
  then show ?case by simp
next
  case (Cons tweet tweets)
  from Cons.prems(1) obtain ls rest where
    ls: "tweet_links_of tweet = Inr ls" and
    rest: "parse_tweet_links tweets = Inr rest"
    by (auto split: sum.splits)
  show ?case
  proof (cases "t = tweet")
    case True
    with tweet_links_of_key [OF ls] show ?thesis by simp
  next
    case False
    with Cons.prems(2) have "t \<in> set tweets" by simp
    then show ?thesis by (rule Cons.IH [OF rest])
  qed
qed

text \<open>
  Claim C10. Link parsing reads \<open>tweet['referenced_tweets']\<close> of every record before
  anything else: when it returns, every record of the input is a dict that has the key
  (a value of \<open>None\<close> included); a first record without the key makes it raise KeyError,
  whatever follows, as the list of the single record \<open>{'id': 1}\<close> does.
\<close>

theorem parse_tweet_links_needs_key:
  "(parse_tweet_links tweets = Inr links \<longrightarrow>
      (\<forall>t \<in> set tweets. \<exists>kvs rt. t = PDict kvs \<and> map_of kvs ''referenced_tweets'' = Some rt))
   \<and> (map_of kvs0 ''referenced_tweets'' = None \<longrightarrow>
        parse_tweet_links (PDict kvs0 # tweets) = Inl KeyError)
   \<and> parse_tweet_links [tweet_bare 1] = Inl KeyError"
proof (intro conjI impI ballI)
  fix t
  assume "parse_tweet_links tweets = Inr links" and "t \<in> set tweets"
  then obtain rt where "getitem t ''referenced_tweets'' = Inr rt"
    using parse_tweet_links_keys by blast
  then show "\<exists>kvs rt. t = PDict kvs \<and> map_of kvs ''referenced_tweets'' = Some rt"
    using getitem_Inr by blast
next
  assume "map_of kvs0 ''referenced_tweets'' = None"
  then show "parse_tweet_links (PDict kvs0 # tweets) = Inl KeyError"
    by (simp add: tweet_links_of_def)
next
  show "parse_tweet_links [tweet_bare 1] = Inl KeyError"
    by (simp add: tweet_links_of_def tweet_bare_def)
qed

theorem parse_tweet_links_needs_key_witness:
  "parse_tweet_links [tweet_quoting 1 7, tweet_plain 2]
     = Inr [PDict [(''parent_id'', PInt 1), (''id'', PInt 7), (''type'', PStr ''quoted'')]]
   \<and> (\<exists>kvs rt. tweet_quoting 1 7 = PDict kvs \<and> map_of kvs ''referenced_tweets'' = Some rt)
   \<and> (\<exists>kvs rt. tweet_plain 2 = PDict kvs \<and> map_of kvs ''referenced_tweets'' = Some rt)
   \<and> map_of [(''id'', PInt 1)] ''referenced_tweets'' = None
   \<and> parse_tweet_links (PDict [(''id'', PInt 1)] # [tweet_plain 2]) = Inl KeyError"
proof -
  have ok: "parse_tweet_links [tweet_quoting 1 7, tweet_plain 2]
     = Inr [PDict [(''parent_id'', PInt 1), (''id'', PInt 7), (''type'', PStr ''quoted'')]]"
    by (simp add: tweet_links_of_def tweet_quoting_def tweet_plain_def)
  have none: "map_of [(''id'', PInt 1)] ''referenced_tweets'' = None"
    by simp
  from parse_tweet_links_needs_key
         [of "[tweet_quoting 1 7, tweet_plain 2]"
             "[PDict [(''parent_id'', PInt 1), (''id'', PInt 7), (''type'', PStr ''quoted'')]]"
             "[(''id'', PInt 1)]"]
       parse_tweet_links_needs_key [of "[tweet_plain 2]" "[]" "[(''id'', PInt 1)]"]
       ok none
  show ?thesis by simp
qed

section \<open>Properties of the page decomposition\<close>

text \<open>
  Claim C6. When \<open>referenced_tweets\<close> is not among the requested tweet fields, the
  decomposition of a page succeeds and has no link table, whatever the page holds. When
  it is among them and the decomposition succeeds, there is a link table, and the
  \<open>parent_id\<close> of each of its records is the \<open>id\<close> of a tweet of this page, whose
  converted record is in the page's tweet table.
\<close>

theorem decompose_links:
  "(\<not> has_refs ev \<longrightarrow> (\<exists>pg. decompose ev resp = Inr pg \<and> pg_links pg = None))
   \<and> (has_refs ev \<longrightarrow> decompose ev resp = Inr pg \<longrightarrow>
        (\<exists>links. pg_links pg = Some links
           \<and> (\<forall>l \<in> set links. \<exists>t \<in> set (data resp). \<exists>v.
                 getitem t ''id'' = Inr v \<and> getitem l ''parent_id'' = Inr v
                 \<and> to_dict ev t \<in> set (pg_tweets pg))))"
proof (intro conjI impI)
  assume "\<not> has_refs ev"
  then show "\<exists>pg. decompose ev resp = Inr pg \<and> pg_links pg = None"
    by (simp add: decompose_def)
next
  assume refs: "has_refs ev" and dec: "decompose ev resp = Inr pg"
  then obtain links where
    parsed: "parse_tweet_links (data resp) = Inr links" and
    pl: "pg_links pg = Some links" and
    pt: "pg_tweets pg = map (to_dict ev) (data resp)"
    by (auto simp add: decompose_def split: sum.splits)
  have "\<exists>t \<in> set (data resp). \<exists>v.
          getitem t ''id'' = Inr v \<and> getitem l ''parent_id'' = Inr v
          \<and> to_dict ev t \<in> set (pg_tweets pg)" if "l \<in> set links" for l
    using parse_tweet_links_parent [OF parsed that] pt by auto
  with pl show "\<exists>links. pg_links pg = Some links
           \<and> (\<forall>l \<in> set links. \<exists>t \<in> set (data resp). \<exists>v.
                 getitem t ''id'' = Inr v \<and> getitem l ''parent_id'' = Inr v
                 \<and> to_dict ev t \<in> set (pg_tweets pg))"
    by blast
qed

theorem decompose_links_witness:
  "\<not> has_refs (sample_env outage [''id''])
   \<and> (\<exists>pg. decompose (sample_env outage [''id'']) (page [tweet_quoting 1 7] [] None) = Inr pg
         \<and> pg_links pg = None)
   \<and> has_refs (sample_env outage [''id'', ''referenced_tweets''])
   \<and> (\<exists>pg. decompose (sample_env outage [''id'', ''referenced_tweets''])
              (page [tweet_quoting 1 7] [] None) = Inr pg
         \<and> pg_links pg
             = Some [PDict [(''parent_id'', PInt 1), (''id'', PInt 7), (''type'', PStr ''quoted'')]]
         \<and> (\<forall>l \<in> set [PDict [(''parent_id'', PInt 1), (''id'', PInt 7), (''type'', PStr ''quoted'')]].
               \<exists>t \<in> set (data (page [tweet_quoting 1 7] [] None)). \<exists>v.
                 getitem t ''id'' = Inr v \<and> getitem l ''parent_id'' = Inr v))"
proof -
  let ?plain = "sample_env outage [''id'']"
  let ?refs = "sample_env outage [''id'', ''referenced_tweets'']"
  let ?pg = "page [tweet_quoting 1 7] [] None"
  have a: "\<not> has_refs ?plain" and b: "has_refs ?refs"
    by (simp_all add: has_refs_def sample_env_def)
  obtain pg where pg: "decompose ?refs ?pg = Inr pg"
    and links: "pg_links pg
      = Some [PDict [(''parent_id'', PInt 1), (''id'', PInt 7), (''type'', PStr ''quoted'')]]"
    using b by (simp add: decompose_def page_def tweet_links_of_def tweet_quoting_def)
  from decompose_links [of ?plain ?pg] a
  have "\<exists>pg. decompose ?plain ?pg = Inr pg \<and> pg_links pg = None" by blast
  moreover from decompose_links [of ?refs ?pg pg] b pg links
  have "\<forall>l \<in> set [PDict [(''parent_id'', PInt 1), (''id'', PInt 7), (''type'', PStr ''quoted'')]].
          \<exists>t \<in> set (data ?pg). \<exists>v. getitem t ''id'' = Inr v \<and> getitem l ''parent_id'' = Inr v"
    by auto
  ultimately show ?thesis using a b pg links by blast
qed

section \<open>Properties of the retry loop\<close>

lemma retry_loop_unfold:
  "retries < max_retries \<Longrightarrow>
     retry_loop cl n token retries k =
       (case cl n token k of
          Inr resp \<Rightarrow> (Inr (Some resp), Suc k)
        | Inl e \<Rightarrow>
            if e = TwitterServerError
            then retry_loop cl n token (Suc retries) (Suc k)
            else (Inl e, Suc k))"
  by (subst retry_loop.simps) simp

lemma retry_loop_done:
  "\<not> retries < max_retries \<Longrightarrow> retry_loop cl n token retries k = (Inr None, k)"
  by (subst retry_loop.simps) simp



text \<open>Against a remote that always raises the server error, the loop makes
  \<open>max_retries - retries\<close> calls and then ends without a \<open>return\<close> and without raising.\<close>

lemma retry_loop_outage:
  "retry_loop outage n token retries k = (Inr None, k + (max_retries - retries))"
proof (induction "max_retries - retries" arbitrary: retries k)
  case 0
  then show ?case by (simp add: retry_loop_done)
next
  case (Suc d)
  then have lt: "retries < max_retries" and d: "d = max_retries - Suc retries"
    by simp_all
  have "retry_loop outage n token retries k
          = retry_loop outage n token (Suc retries) (Suc k)"
    by (simp add: retry_loop_unfold [OF lt] outage_def)
  also have "\<dots> = (Inr None, Suc k + (max_retries - Suc retries))"
    by (rule Suc.hyps(1) [OF d])
  finally show ?case using lt by simp
qed

lemma pull_step_outage:
  "tweepy_client ev = outage \<Longrightarrow> pull_step ev output_dir save_format batch s = Inl AttributeError"
  by (simp add: pull_step_def search_tweets_def retry_loop_outage)

lemma timeline_step_outage:
  "tweepy_client ev = outage \<Longrightarrow>
     timeline_step ev handle save_dir save_format output_handle handle_col tpq s
       = Inl AttributeError"
  by (simp add: timeline_step_def get_tweets_def retry_loop_outage)

text \<open>
  Claim C3, which the code does not meet. Against a remote in a lasting outage,
  \<open>search_tweets\<close> and \<open>get_tweets\<close> make exactly 5 calls, and then the loop ends and
  the function returns \<open>None\<close>: \<open>MaxRetries\<close> is never raised, although both pull loops
  have a handler for it. The pull loop reads \<open>response.data\<close> of that \<open>None\<close> and the
  whole pull ends with AttributeError at the first planned batch, instead of skipping it.
\<close>

theorem retries_exhausted_returns_none:
  "search_tweets outage 100 None 0 = (Inr None, 5)
   \<and> get_tweets outage None 100 0 = (Inr None, 5)
   \<and> pull (sample_env outage [''id'']) ''out'' ''csv'' 250 100 = Inl AttributeError
   \<and> timeline_pull 1 (sample_env outage [''id'']) ''bob'' ''out'' ''csv'' False ''handle'' 100
       = Some (Inl AttributeError)"
proof -
  have "plan_batches 250 100 = Inr [100, 100, 50]"
    by code_simp
  then have "pull (sample_env outage [''id'']) ''out'' ''csv'' 250 100 = Inl AttributeError"
    by (simp add: pull_def pull_step_outage sample_env_def)
  moreover have
    "timeline_pull (Suc 0) (sample_env outage [''id'']) ''bob'' ''out'' ''csv'' False ''handle'' 100
       = Some (Inl AttributeError)"
    by (simp add: timeline_pull_def timeline_step_outage sample_env_def)
  ultimately show ?thesis
    by (simp add: search_tweets_def get_tweets_def retry_loop_outage max_retries_def)
qed

section \<open>Properties of the frame operations\<close>

lemma set_drop_seen: "set (drop_seen seen xs) = set xs - set seen"
  by (induction xs arbitrary: seen) auto

lemma distinct_drop_seen: "distinct (drop_seen seen xs)"
  by (induction xs arbitrary: seen) (auto simp add: set_drop_seen)

lemma distinct_drop_duplicates: "distinct (drop_duplicates xs)"
  by (simp add: drop_duplicates_def distinct_drop_seen)

lemma set_drop_duplicates: "set (drop_duplicates xs) = set xs"
  by (simp add: drop_duplicates_def set_drop_seen)

lemma drop_seen_same_set: "set seen = set seen' \<Longrightarrow> drop_seen seen xs = drop_seen seen' xs"
proof (induction xs arbitrary: seen seen')
  case Nil
  show ?case by simp
next
  case (Cons x xs)
  have "set (x # seen) = set (x # seen')"
    using Cons.prems by simp
  then have a: "drop_seen (x # seen) xs = drop_seen (x # seen') xs"
    by (rule Cons.IH)
  have b: "drop_seen seen xs = drop_seen seen' xs"
    using Cons.prems by (rule Cons.IH)
  have c: "x \<in> set seen \<longleftrightarrow> x \<in> set seen'"
    using Cons.prems by simp
  show ?case
    by (simp only: drop_seen.simps a b c)
qed

lemma drop_seen_unseen: "distinct xs \<Longrightarrow> set xs \<inter> set seen = {} \<Longrightarrow> drop_seen seen xs = xs"
proof (induction xs arbitrary: seen)
  case Nil
  show ?case by simp
next
  case (Cons x xs)
  from Cons.prems have x: "x \<notin> set seen" and d: "distinct xs"
    and e: "set xs \<inter> set (x # seen) = {}"
    by auto
  from Cons.IH [OF d e] x show ?case by simp
qed

lemma drop_seen_append:
  "drop_seen seen (xs @ ys) = drop_seen seen xs @ drop_seen (xs @ seen) ys"
proof (induction xs arbitrary: seen)
  case Nil
  then show ?case by simp
next
  case (Cons x xs)
  show ?case
  proof (cases "x \<in> set seen")
    case True
    then have "set (xs @ seen) = set ((x # xs) @ seen)" by auto
    then have "drop_seen (xs @ seen) ys = drop_seen ((x # xs) @ seen) ys"
      by (rule drop_seen_same_set)
    with True Cons.IH [of seen] show ?thesis by simp
  next
    case False
    have "set (xs @ x # seen) = set ((x # xs) @ seen)" by auto
    then have "drop_seen (xs @ x # seen) ys = drop_seen ((x # xs) @ seen) ys"
      by (rule drop_seen_same_set)
    with False Cons.IH [of "x # seen"] show ?thesis by simp
  qed
qed

text \<open>Rows accumulated without repetition stay where they are: the new page only adds,
  after them, those of its rows that are not there yet.\<close>

lemma drop_duplicates_append:
  "distinct old \<Longrightarrow> drop_duplicates (old @ new) = old @ drop_seen old new"
  by (simp add: drop_duplicates_def drop_seen_append drop_seen_unseen)

lemma count_list_distinct: "distinct xs \<Longrightarrow> x \<in> set xs \<Longrightarrow> count_list xs x = 1"
  by (induction xs) (auto simp add: count_list_0_iff)

lemma count_drop_duplicates: "x \<in> set xs \<Longrightarrow> count_list (drop_duplicates xs) x = 1"
  by (simp add: count_list_distinct distinct_drop_duplicates set_drop_duplicates)

section \<open>What one iteration of the search loop changes\<close>

lemma to_file_if_cases:
  "to_file_if c df path fs = Inr fs' \<Longrightarrow>
     (\<not> c \<and> fs' = fs)
     \<or> (c \<and> (\<exists>rows p. df = Some rows \<and> path = Inr p \<and> fs' = fs(p \<mapsto> rows)))"
  by (auto simp add: to_file_if_def to_file_def split: if_splits option.splits sum.splits)

lemma flush_only_files: "flush ev od sf pg s = Inr s1 \<Longrightarrow> s1 = s\<lparr>files := files s1\<rparr>"
  by (auto simp add: flush_def split: if_splits sum.splits)

lemma process_page_cases:
  assumes "process_page ev od sf resp s = Inr s1"
  shows "(data resp = [] \<and> s1 = s)
       \<or> (\<exists>pg s0. data resp \<noteq> [] \<and> decompose ev resp = Inr pg
             \<and> flush ev od sf pg (merge pg s) = Inr s0
             \<and> s1 = s0\<lparr>num_collected := num_collected s0 + length (pg_tweets pg)\<rparr>)"
  using assms by (auto simp add: process_page_def split: if_splits sum.splits)

lemma pull_step_cases:
  assumes "pull_step ev od sf batch s = Inr c"
  shows "(\<exists>k. c = Continue (s\<lparr>calls := k, fetches := Suc (fetches s)\<rparr>))
       \<or> (\<exists>resp s1 k. process_page ev od sf resp s = Inr s1
             \<and> ctl_state c
                 = s1\<lparr>next_token := meta_next_token resp, calls := k, fetches := Suc (fetches s)\<rparr>)"
proof -
  obtain r k where st: "search_tweets (tweepy_client ev) batch (next_token s) (calls s) = (r, k)"
    by (cases "search_tweets (tweepy_client ev) batch (next_token s) (calls s)")
  show ?thesis
  proof (cases r)
    case (Inl e)
    with assms st have "c = Continue (s\<lparr>calls := k, fetches := Suc (fetches s)\<rparr>)"
      by (simp add: pull_step_def split: if_splits)
    then show ?thesis by blast
  next
    case (Inr ro)
    with assms st obtain resp where ro: "ro = Some resp"
      by (cases ro) (simp_all add: pull_step_def)
    from assms st Inr ro obtain s1 where
      s1: "process_page ev od sf resp s = Inr s1"
      by (cases "process_page ev od sf resp s") (simp_all add: pull_step_def)
    from assms st Inr ro s1 have
      "ctl_state c
         = s1\<lparr>next_token := meta_next_token resp, calls := k, fetches := Suc (fetches s)\<rparr>"
      by (cases "meta_next_token resp = None") (auto simp add: pull_step_def Let_def)
    with s1 show ?thesis by blast
  qed
qed

text \<open>A property of the session that does not depend on the token or on the two counters,
  and that the processing of a page preserves, holds after every iteration and at the end
  of the loop.\<close>

lemma pull_step_preserves:
  assumes page: "\<And>resp s1. process_page ev od sf resp s = Inr s1 \<Longrightarrow> I s1"
    and frame: "\<And>s t k f. I s \<Longrightarrow> I (s\<lparr>next_token := t, calls := k, fetches := f\<rparr>)"
    and inv: "I s"
    and step: "pull_step ev od sf batch s = Inr c"
  shows "I (ctl_state c)"
proof -
  from pull_step_cases [OF step] show ?thesis
  proof (elim disjE exE conjE)
    fix k
    assume c: "c = Continue (s\<lparr>calls := k, fetches := Suc (fetches s)\<rparr>)"
    have "I (s\<lparr>next_token := next_token s, calls := k, fetches := Suc (fetches s)\<rparr>)"
      by (rule frame [OF inv])
    with c show ?thesis by simp
  next
    fix resp s1 k
    assume "process_page ev od sf resp s = Inr s1"
      and c: "ctl_state c
        = s1\<lparr>next_token := meta_next_token resp, calls := k, fetches := Suc (fetches s)\<rparr>"
    then have "I s1" by (simp add: page)
    then show ?thesis unfolding c by (rule frame)
  qed
qed

lemma pull_loop_preserves:
  assumes step: "\<And>batch s c. I s \<Longrightarrow> pull_step ev od sf batch s = Inr c \<Longrightarrow> I (ctl_state c)"
    and inv: "I s"
    and loop: "pull_loop ev od sf batches s = Inr s'"
  shows "I s'"
  using inv loop
proof (induction batches arbitrary: s)
  case Nil
  then show ?case by simp
next
  case (Cons batch batches)
  from Cons.prems(2) obtain c where c: "pull_step ev od sf batch s = Inr c"
    by (auto split: sum.splits)
  have Ic: "I (ctl_state c)" by (rule step [OF Cons.prems(1) c])
  show ?case
  proof (cases c)
    case (Continue s1)
    with c Cons.prems(2) have "pull_loop ev od sf batches s1 = Inr s'" by simp
    moreover from Ic Continue have "I s1" by simp
    ultimately show ?thesis by (rule Cons.IH [rotated])
  next
    case (Break s1)
    with c Cons.prems(2) Ic show ?thesis by simp
  qed
qed

section \<open>Deduplication of the secondary frames\<close>

lemma flush_frames:
  assumes "flush ev od sf pg s = Inr s1"
  shows "df_refs s1 = df_refs s" and "df_users s1 = df_users s" and "df_media s1 = df_media s"
    and "df_links s1 = df_links s" and "df_tweets s1 = df_tweets s"
    and "num_collected s1 = num_collected s"
proof -
  have e: "s1 = s\<lparr>files := files s1\<rparr>"
    by (rule flush_only_files [OF assms])
  show "df_refs s1 = df_refs s" by (subst e) simp
  show "df_users s1 = df_users s" by (subst e) simp
  show "df_media s1 = df_media s" by (subst e) simp
  show "df_links s1 = df_links s" by (subst e) simp
  show "df_tweets s1 = df_tweets s" by (subst e) simp
  show "num_collected s1 = num_collected s" by (subst e) simp
qed

text \<open>What the two statements \<open>pd.concat\<close> and \<open>drop_duplicates\<close> do to a frame without
  equal rows: its rows stay, and those rows of the page follow that equal none of them
  and no earlier row of the page.\<close>

lemma accumulated_rows:
  assumes "no_dup df"
  shows "rows_of (Some (drop_duplicates (concat_rows df new)))
           = rows_of df @ drop_seen (rows_of df) new"
proof (cases df)
  case None
  then show ?thesis
    by (simp add: rows_of_def concat_rows_def drop_duplicates_def)
next
  case (Some old)
  with assms have "distinct old" by (simp add: no_dup_def)
  with Some show ?thesis
    by (simp add: rows_of_def concat_rows_def drop_duplicates_append)
qed

lemma accumulated_rows_if:
  assumes "no_dup df"
  shows "rows_of (if new \<noteq> [] then Some (drop_duplicates (concat_rows df new)) else df)
           = rows_of df @ drop_seen (rows_of df) new"
  using accumulated_rows [OF assms, of new] by (cases "new = []") simp_all

lemma merge_rows:
  assumes "secondary_distinct s"
  shows "rows_of (df_refs (merge pg s))
           = rows_of (df_refs s) @ drop_seen (rows_of (df_refs s)) (pg_refs pg)"
    and "rows_of (df_users (merge pg s))
           = rows_of (df_users s) @ drop_seen (rows_of (df_users s)) (pg_users pg)"
    and "rows_of (df_media (merge pg s))
           = rows_of (df_media s) @ drop_seen (rows_of (df_media s)) (pg_media pg)"
    and "rows_of (df_links (merge pg s))
           = rows_of (df_links s) @ drop_seen (rows_of (df_links s)) (rows_of (pg_links pg))"
proof -
  from assms have r: "no_dup (df_refs s)" and u: "no_dup (df_users s)"
    and m: "no_dup (df_media s)" and l: "no_dup (df_links s)"
    by (simp_all add: secondary_distinct_def)
  show "rows_of (df_refs (merge pg s))
           = rows_of (df_refs s) @ drop_seen (rows_of (df_refs s)) (pg_refs pg)"
    using accumulated_rows_if [OF r, of "pg_refs pg"] by (simp add: merge_def)
  show "rows_of (df_users (merge pg s))
           = rows_of (df_users s) @ drop_seen (rows_of (df_users s)) (pg_users pg)"
    using accumulated_rows_if [OF u, of "pg_users pg"] by (simp add: merge_def)
  show "rows_of (df_media (merge pg s))
           = rows_of (df_media s) @ drop_seen (rows_of (df_media s)) (pg_media pg)"
    using accumulated_rows_if [OF m, of "pg_media pg"] by (simp add: merge_def)
  show "rows_of (df_links (merge pg s))
           = rows_of (df_links s) @ drop_seen (rows_of (df_links s)) (rows_of (pg_links pg))"
  proof (cases "pg_links pg")
    case None
    then show ?thesis by (simp add: merge_def rows_of_def)
  next
    case (Some links)
    with accumulated_rows [OF l, of links] show ?thesis
      by (simp add: merge_def) (simp add: rows_of_def)
  qed
qed

lemma kept_iff: "kept old new \<longleftrightarrow> (\<exists>ext. rows_of new = rows_of old @ ext)"
proof
  assume "kept old new"
  then have "rows_of new = rows_of old @ drop (length (rows_of old)) (rows_of new)"
    by (metis append_take_drop_id kept_def)
  then show "\<exists>ext. rows_of new = rows_of old @ ext" ..
next
  assume "\<exists>ext. rows_of new = rows_of old @ ext"
  then show "kept old new" by (auto simp add: kept_def)
qed

lemma kept_refl: "kept df df"
  by (simp add: kept_def)

lemma kept_trans: "kept a b \<Longrightarrow> kept b c \<Longrightarrow> kept a c"
  unfolding kept_iff by auto

lemma secondary_kept_refl: "secondary_kept s s"
  by (simp add: secondary_kept_def kept_refl)

lemma secondary_kept_trans: "secondary_kept a b \<Longrightarrow> secondary_kept b c \<Longrightarrow> secondary_kept a c"
  unfolding secondary_kept_def by (blast intro: kept_trans)

lemma merge_secondary_kept:
  assumes "secondary_distinct s"
  shows "secondary_kept s (merge pg s)"
  unfolding secondary_kept_def kept_iff
  using merge_rows [OF assms, of pg] by blast

lemma merge_secondary_distinct: "secondary_distinct s \<Longrightarrow> secondary_distinct (merge pg s)"
  by (simp add: secondary_distinct_def no_dup_def merge_def distinct_drop_duplicates
           split: option.splits)

lemma process_page_secondary:
  assumes "secondary_distinct s" and "process_page ev od sf resp s = Inr s1"
  shows "secondary_distinct s1 \<and> secondary_kept s s1"
proof -
  from process_page_cases [OF assms(2)] show ?thesis
  proof (elim disjE exE conjE)
    assume "s1 = s"
    with assms(1) show ?thesis by (simp add: secondary_kept_refl)
  next
    fix pg s0
    assume fl: "flush ev od sf pg (merge pg s) = Inr s0"
      and s1: "s1 = s0\<lparr>num_collected := num_collected s0 + length (pg_tweets pg)\<rparr>"
    have d: "secondary_distinct s1 = secondary_distinct (merge pg s)"
      by (simp add: s1 secondary_distinct_def flush_frames [OF fl])
    have k: "secondary_kept s s1 = secondary_kept s (merge pg s)"
      by (simp add: s1 secondary_kept_def flush_frames [OF fl])
    from d k merge_secondary_distinct [OF assms(1)] merge_secondary_kept [OF assms(1)]
    show ?thesis by simp
  qed
qed

lemma pull_step_secondary:
  assumes "secondary_distinct s" and "pull_step ev od sf batch s = Inr c"
  shows "secondary_distinct (ctl_state c) \<and> secondary_kept s (ctl_state c)"
proof (rule pull_step_preserves
    [where I = "\<lambda>s'. secondary_distinct s' \<and> secondary_kept s s'", OF _ _ _ assms(2)])
  fix resp s1
  assume "process_page ev od sf resp s = Inr s1"
  with assms(1) show "secondary_distinct s1 \<and> secondary_kept s s1"
    by (rule process_page_secondary)
next
  fix s' :: session and t k f
  assume "secondary_distinct s' \<and> secondary_kept s s'"
  then show "secondary_distinct (s'\<lparr>next_token := t, calls := k, fetches := f\<rparr>)
      \<and> secondary_kept s (s'\<lparr>next_token := t, calls := k, fetches := f\<rparr>)"
    by (simp add: secondary_distinct_def secondary_kept_def)
next
  from assms(1) show "secondary_distinct s \<and> secondary_kept s s"
    by (simp add: secondary_kept_refl)
qed

lemma pull_loop_secondary:
  "secondary_distinct s \<Longrightarrow> pull_loop ev od sf batches s = Inr s' \<Longrightarrow>
     secondary_distinct s' \<and> secondary_kept s s'"
proof (induction batches arbitrary: s)
  case Nil
  then show ?case by (simp add: secondary_kept_refl)
next
  case (Cons batch batches)
  from Cons.prems(2) obtain c where c: "pull_step ev od sf batch s = Inr c"
    by (auto split: sum.splits)
  from pull_step_secondary [OF Cons.prems(1) c]
  have d: "secondary_distinct (ctl_state c)" and k: "secondary_kept s (ctl_state c)"
    by simp_all
  show ?case
  proof (cases c)
    case (Continue s1)
    with c Cons.prems(2) have loop: "pull_loop ev od sf batches s1 = Inr s'" by simp
    from d Continue have "secondary_distinct s1" by simp
    from Cons.IH [OF this loop] have "secondary_distinct s'" and "secondary_kept s1 s'"
      by simp_all
    moreover from k Continue have "secondary_kept s s1" by simp
    ultimately show ?thesis by (blast intro: secondary_kept_trans)
  next
    case (Break s1)
    with c Cons.prems(2) d k show ?thesis by simp
  qed
qed

lemma merged_row_once:
  assumes "r \<in> set new"
  shows "count_list (drop_duplicates (concat_rows df new)) r = 1"
proof -
  from assms have "r \<in> set (concat_rows df new)"
    by (cases df) (simp_all add: concat_rows_def)
  then show ?thesis by (rule count_drop_duplicates)
qed

text \<open>
  Claim C4, as amended. In a search session the secondary frames (referenced tweets,
  users, media, links) are deduplicated on the whole row. Merging a page leaves the
  accumulated rows of each frame where they are and adds after them, in page order,
  those rows of the page that equal no accumulated row and no earlier row of the page:
  a row of the page that equals an accumulated row in every column is dropped, and one
  that differs in any column is kept beside it. Each row of the page occurs exactly
  once in the merged frame of its kind. A session whose secondary frames hold no two
  equal rows stays so through every iteration and to the end of the loop, and keeps the
  rows it has accumulated; the frames at the end of a pull hold no two equal rows.
\<close>

theorem secondary_frames_distinct:
  "(secondary_distinct s \<longrightarrow>
      rows_of (df_refs (merge pg s))
        = rows_of (df_refs s) @ drop_seen (rows_of (df_refs s)) (pg_refs pg)
      \<and> rows_of (df_users (merge pg s))
        = rows_of (df_users s) @ drop_seen (rows_of (df_users s)) (pg_users pg)
      \<and> rows_of (df_media (merge pg s))
        = rows_of (df_media s) @ drop_seen (rows_of (df_media s)) (pg_media pg)
      \<and> rows_of (df_links (merge pg s))
        = rows_of (df_links s) @ drop_seen (rows_of (df_links s)) (rows_of (pg_links pg)))
   \<and> (r \<in> set (pg_refs pg) \<longrightarrow>
        (\<exists>rows. df_refs (merge pg s) = Some rows \<and> count_list rows r = 1))
   \<and> (r \<in> set (pg_users pg) \<longrightarrow>
        (\<exists>rows. df_users (merge pg s) = Some rows \<and> count_list rows r = 1))
   \<and> (r \<in> set (pg_media pg) \<longrightarrow>
        (\<exists>rows. df_media (merge pg s) = Some rows \<and> count_list rows r = 1))
   \<and> (pg_links pg = Some links \<longrightarrow> r \<in> set links \<longrightarrow>
        (\<exists>rows. df_links (merge pg s) = Some rows \<and> count_list rows r = 1))
   \<and> (secondary_distinct s \<longrightarrow> pull_step ev od sf batch s = Inr c \<longrightarrow>
        secondary_distinct (ctl_state c) \<and> secondary_kept s (ctl_state c))
   \<and> (secondary_distinct s \<longrightarrow> pull_loop ev od sf batches s = Inr t \<longrightarrow>
        secondary_distinct t \<and> secondary_kept s t)
   \<and> (pull ev od sf max_results batch_size = Inr s' \<longrightarrow> secondary_distinct s')"
proof (intro conjI impI)
  assume d: "secondary_distinct s"
  show "rows_of (df_refs (merge pg s))
        = rows_of (df_refs s) @ drop_seen (rows_of (df_refs s)) (pg_refs pg)"
    by (rule merge_rows [OF d])
  show "rows_of (df_users (merge pg s))
        = rows_of (df_users s) @ drop_seen (rows_of (df_users s)) (pg_users pg)"
    by (rule merge_rows [OF d])
  show "rows_of (df_media (merge pg s))
        = rows_of (df_media s) @ drop_seen (rows_of (df_media s)) (pg_media pg)"
    by (rule merge_rows [OF d])
  show "rows_of (df_links (merge pg s))
        = rows_of (df_links s) @ drop_seen (rows_of (df_links s)) (rows_of (pg_links pg))"
    by (rule merge_rows [OF d])
next
  assume "r \<in> set (pg_refs pg)"
  then show "\<exists>rows. df_refs (merge pg s) = Some rows \<and> count_list rows r = 1"
    by (auto simp add: merge_def merged_row_once)
next
  assume "r \<in> set (pg_users pg)"
  then show "\<exists>rows. df_users (merge pg s) = Some rows \<and> count_list rows r = 1"
    by (auto simp add: merge_def merged_row_once)
next
  assume "r \<in> set (pg_media pg)"
  then show "\<exists>rows. df_media (merge pg s) = Some rows \<and> count_list rows r = 1"
    by (auto simp add: merge_def merged_row_once)
next
  assume "pg_links pg = Some links" and "r \<in> set links"
  then show "\<exists>rows. df_links (merge pg s) = Some rows \<and> count_list rows r = 1"
    by (simp add: merge_def merged_row_once)
next
  assume d: "secondary_distinct s" and st: "pull_step ev od sf batch s = Inr c"
  from pull_step_secondary [OF d st]
  show "secondary_distinct (ctl_state c)" and "secondary_kept s (ctl_state c)"
    by simp_all
next
  assume d: "secondary_distinct s" and loop: "pull_loop ev od sf batches s = Inr t"
  from pull_loop_secondary [OF d loop]
  show "secondary_distinct t" and "secondary_kept s t"
    by simp_all
next
  assume p: "pull ev od sf max_results batch_size = Inr s'"
  then obtain bs where loop: "pull_loop ev od sf bs init_session = Inr s'"
    by (auto simp add: pull_def split: sum.splits)
  have init: "secondary_distinct init_session"
    by (simp add: secondary_distinct_def no_dup_def init_session_def)
  from pull_loop_secondary [OF init loop] show "secondary_distinct s'"
    by simp
qed

theorem secondary_frames_distinct_witness:
  "secondary_distinct (init_session\<lparr>df_users := Some [user_rec 7 ''a'']\<rparr>)
   \<and> rows_of (df_users (merge \<lparr>pg_tweets = [tweet_plain 2], pg_refs = [tweet_plain 9],
                               pg_users = [user_rec 7 ''a'', user_rec 7 ''b''],
                               pg_media = [PStr ''m''], pg_links = Some [PStr ''l'']\<rparr>
                        (init_session\<lparr>df_users := Some [user_rec 7 ''a'']\<rparr>)))
       = [user_rec 7 ''a'', user_rec 7 ''b'']
   \<and> (\<exists>rows. df_users (merge \<lparr>pg_tweets = [tweet_plain 2], pg_refs = [tweet_plain 9],
                               pg_users = [user_rec 7 ''a'', user_rec 7 ''b''],
                               pg_media = [PStr ''m''], pg_links = Some [PStr ''l'']\<rparr>
                        (init_session\<lparr>df_users := Some [user_rec 7 ''a'']\<rparr>)) = Some rows
          \<and> count_list rows (user_rec 7 ''a'') = 1)
   \<and> secondary_distinct init_session
   \<and> (\<exists>c. pull_step (sample_env (serve [page [tweet_plain 1] [user_rec 7 ''a''] (Some ''t1''),
                                      page [tweet_plain 2] [user_rec 7 ''a''] None])
                         [''id'', ''referenced_tweets''])
              ''out'' ''csv'' 100 init_session = Inr c
          \<and> secondary_distinct (ctl_state c) \<and> secondary_kept init_session (ctl_state c))
   \<and> (\<exists>t. pull_loop (sample_env (serve [page [tweet_plain 1] [user_rec 7 ''a''] (Some ''t1''),
                                      page [tweet_plain 2] [user_rec 7 ''a''] None])
                         [''id'', ''referenced_tweets''])
              ''out'' ''csv'' [100, 100] init_session = Inr t
          \<and> secondary_distinct t \<and> secondary_kept init_session t)
   \<and> (\<exists>s'. pull (sample_env (serve [page [tweet_plain 1] [user_rec 7 ''a''] (Some ''t1''),
                                  page [tweet_plain 2] [user_rec 7 ''a''] None])
                     [''id'', ''referenced_tweets''])
              ''out'' ''csv'' 250 100 = Inr s'
          \<and> df_users s' = Some [user_rec 7 ''a'']
          \<and> secondary_distinct s')"
proof -
  let ?ev = "sample_env (serve [page [tweet_plain 1] [user_rec 7 ''a''] (Some ''t1''),
                                page [tweet_plain 2] [user_rec 7 ''a''] None])
               [''id'', ''referenced_tweets'']"
  let ?pg = "\<lparr>pg_tweets = [tweet_plain 2], pg_refs = [tweet_plain 9],
              pg_users = [user_rec 7 ''a'', user_rec 7 ''b''], pg_media = [PStr ''m''],
              pg_links = Some [PStr ''l'']\<rparr>"
  let ?s = "init_session\<lparr>df_users := Some [user_rec 7 ''a'']\<rparr>"
  have acc: "secondary_distinct ?s" and init: "secondary_distinct init_session"
    by code_simp+
  have "\<not> isl (pull_step ?ev ''out'' ''csv'' 100 init_session)"
    by code_simp
  then obtain c where c: "pull_step ?ev ''out'' ''csv'' 100 init_session = Inr c"
    by (cases "pull_step ?ev ''out'' ''csv'' 100 init_session") simp_all
  have "\<not> isl (pull_loop ?ev ''out'' ''csv'' [100, 100] init_session)"
    by code_simp
  then obtain t where t: "pull_loop ?ev ''out'' ''csv'' [100, 100] init_session = Inr t"
    by (cases "pull_loop ?ev ''out'' ''csv'' [100, 100] init_session") simp_all
  have "\<not> isl (pull ?ev ''out'' ''csv'' 250 100)"
    by code_simp
  then obtain s' where s': "pull ?ev ''out'' ''csv'' 250 100 = Inr s'"
    by (cases "pull ?ev ''out'' ''csv'' 250 100") simp_all
  have "map_sum id df_users (pull ?ev ''out'' ''csv'' 250 100) = Inr (Some [user_rec 7 ''a''])"
    by code_simp
  with s' have us: "df_users s' = Some [user_rec 7 ''a'']"
    by simp
  have users: "user_rec 7 ''a'' \<in> set (pg_users ?pg)"
    by simp
  from secondary_frames_distinct
    [where s = ?s and pg = ?pg and r = "user_rec 7 ''a''" and links = "[PStr ''l'']"
       and ev = ?ev and od = "''out''" and sf = "''csv''" and batch = 100 and c = c
       and batches = "[100, 100]" and t = t and max_results = 250 and batch_size = 100
       and s' = s'] acc users
  have rows: "rows_of (df_users (merge ?pg ?s))
         = rows_of (df_users ?s) @ drop_seen (rows_of (df_users ?s)) (pg_users ?pg)"
    and once: "\<exists>rows. df_users (merge ?pg ?s) = Some rows \<and> count_list rows (user_rec 7 ''a'') = 1"
    by blast+
  have "rows_of (df_users ?s) @ drop_seen (rows_of (df_users ?s)) (pg_users ?pg)
          = [user_rec 7 ''a'', user_rec 7 ''b'']"
    by code_simp
  with rows have two: "rows_of (df_users (merge ?pg ?s)) = [user_rec 7 ''a'', user_rec 7 ''b'']"
    by simp
  from secondary_frames_distinct
    [where s = init_session and pg = ?pg and r = "user_rec 7 ''a''" and links = "[PStr ''l'']"
       and ev = ?ev and od = "''out''" and sf = "''csv''" and batch = 100 and c = c
       and batches = "[100, 100]" and t = t and max_results = 250 and batch_size = 100
       and s' = s'] init c t s'
  have a: "secondary_distinct (ctl_state c) \<and> secondary_kept init_session (ctl_state c)"
    and b: "secondary_distinct t \<and> secondary_kept init_session t"
    and d: "secondary_distinct s'"
    by blast+
  from acc two once init c a t b s' us d show ?thesis by blast
qed

text \<open>
  The claim as stated, at most one record per identity, fails: two pages that carry the
  user 7 under two different names leave two records with the \<open>id\<close> 7 in the users frame.
\<close>

theorem secondary_frames_identity_counterexample:
  "map_sum id df_users
     (pull (sample_env (serve [page [tweet_plain 1] [user_rec 7 ''a''] (Some ''t1''),
                               page [tweet_plain 2] [user_rec 7 ''b''] None])
              [''id'', ''referenced_tweets''])
        ''out'' ''csv'' 250 100)
     = Inr (Some [user_rec 7 ''a'', user_rec 7 ''b''])
   \<and> getitem (user_rec 7 ''a'') ''id'' = Inr (PInt 7)
   \<and> getitem (user_rec 7 ''b'') ''id'' = Inr (PInt 7)"
  by code_simp

section \<open>Row count of the tweets frame\<close>

lemma tweet_rows_merge: "tweet_rows (merge pg s) = tweet_rows s + length (pg_tweets pg)"
  by (cases "df_tweets s") (simp_all add: tweet_rows_def merge_def concat_rows_def)

lemma process_page_tweet_rows:
  assumes "tweet_rows s = num_collected s" and "process_page ev od sf resp s = Inr s1"
  shows "tweet_rows s1 = num_collected s1"
proof -
  from process_page_cases [OF assms(2)] show ?thesis
  proof (elim disjE exE conjE)
    assume "s1 = s"
    with assms(1) show ?thesis by simp
  next
    fix pg s0
    assume fl: "flush ev od sf pg (merge pg s) = Inr s0"
      and s1: "s1 = s0\<lparr>num_collected := num_collected s0 + length (pg_tweets pg)\<rparr>"
    have "tweet_rows s0 = tweet_rows (merge pg s)"
      by (simp add: tweet_rows_def flush_frames [OF fl])
    moreover have "num_collected s0 = num_collected s"
      by (simp add: flush_frames [OF fl] merge_def)
    ultimately show ?thesis
      using assms(1) s1 by (simp add: tweet_rows_merge) (simp add: tweet_rows_def)
  qed
qed

text \<open>
  In a search session the tweets frame grows by the rows of each page, appended after
  the rows already there and never deduplicated: its row count is \<open>num_collected\<close>, the
  sum that the loop keeps of the tweet counts of the merged pages.
\<close>

lemma pull_tweet_rows:
  assumes "pull ev od sf max_results batch_size = Inr s"
  shows "tweet_rows s = num_collected s"
proof -
  from assms obtain batches where loop: "pull_loop ev od sf batches init_session = Inr s"
    by (auto simp add: pull_def split: sum.splits)
  have init: "tweet_rows init_session = num_collected init_session"
    by (simp add: tweet_rows_def init_session_def)
  have step: "tweet_rows (ctl_state c) = num_collected (ctl_state c)"
    if "tweet_rows s0 = num_collected s0" and "pull_step ev od sf batch s0 = Inr c"
    for batch s0 c
  proof (rule pull_step_preserves
      [where I = "\<lambda>s. tweet_rows s = num_collected s", OF _ _ that])
    fix resp s1
    assume "process_page ev od sf resp s0 = Inr s1"
    with that(1) show "tweet_rows s1 = num_collected s1"
      by (rule process_page_tweet_rows)
  next
    fix s' :: session and t k f
    assume "tweet_rows s' = num_collected s'"
    then show "tweet_rows (s'\<lparr>next_token := t, calls := k, fetches := f\<rparr>)
               = num_collected (s'\<lparr>next_token := t, calls := k, fetches := f\<rparr>)"
      by (simp add: tweet_rows_def)
  qed
  show ?thesis
    by (rule pull_loop_preserves
          [where I = "\<lambda>s. tweet_rows s = num_collected s", OF _ init loop])
       (rule step)
qed

text \<open>
  Claim C5, which \<open>Timeline.pull\<close> does not meet. It extends the tweets frame with
  \<open>axis = 1\<close>, which sets the new page beside the accumulated rows instead of below
  them. Two pages of one tweet each leave a frame of one row, while the loop has counted
  two tweets; \<open>TweetSearch.pull\<close>, which concatenates with \<open>axis = 0\<close>, leaves two rows
  for the same pages.
\<close>

theorem timeline_tweet_rows_not_summed:
  "map_option (map_sum id tweet_rows)
     (timeline_pull 2
        (sample_env (serve [page [tweet_plain 1] [] (Some ''t1''), page [tweet_plain 2] [] None])
           [''id''])
        ''bob'' ''out'' ''csv'' False ''handle'' 100)
     = Some (Inr 1)
   \<and> map_option (map_sum id num_collected)
     (timeline_pull 2
        (sample_env (serve [page [tweet_plain 1] [] (Some ''t1''), page [tweet_plain 2] [] None])
           [''id''])
        ''bob'' ''out'' ''csv'' False ''handle'' 100)
     = Some (Inr 2)
   \<and> map_sum id tweet_rows
     (pull
        (sample_env (serve [page [tweet_plain 1] [] (Some ''t1''), page [tweet_plain 2] [] None])
           [''id''])
        ''out'' ''csv'' 250 100)
     = Inr 2"
  by code_simp

section \<open>The files of a search session\<close>

lemma pg_links_None_iff: "decompose ev resp = Inr pg \<Longrightarrow> (pg_links pg = None) = (\<not> has_refs ev)"
  by (auto simp add: decompose_def split: if_splits sum.splits)

lemma save_path_for_plain:
  "CHR ''%'' \<notin> set od \<Longrightarrow> CHR ''%'' \<notin> set sf \<Longrightarrow>
     save_path_for ev od sf kind = Inr (od @ ''/data_'' @ kind @ ''.'' @ sf)"
  by (simp add: save_path_for_def)

lemma flush_csv_files:
  assumes pc: "CHR ''%'' \<notin> set od"
    and fl: "flush ev od ''csv'' pg s = Inr s0"
  shows "\<exists>r1 r2 r3 r4 r5.
     (pg_refs pg \<noteq> [] \<longrightarrow> df_refs s = Some r1)
   \<and> (pg_users pg \<noteq> [] \<longrightarrow> df_users s = Some r2)
   \<and> (pg_media pg \<noteq> [] \<longrightarrow> df_media s = Some r3)
   \<and> (has_refs ev \<longrightarrow> df_links s = Some r4)
   \<and> df_tweets s = Some r5
   \<and> files s0 =
       (\<lambda>p. if p = od @ ''/data_tweets.csv'' then Some r5
            else if p = od @ ''/data_ref_links.csv'' \<and> has_refs ev then Some r4
            else if p = od @ ''/data_media.csv'' \<and> pg_media pg \<noteq> [] then Some r3
            else if p = od @ ''/data_users.csv'' \<and> pg_users pg \<noteq> [] then Some r2
            else if p = od @ ''/data_ref_tweets.csv'' \<and> pg_refs pg \<noteq> [] then Some r1
            else files s p)"
proof -
  from fl obtain fs1 fs2 fs3 fs4 fs5 where
    w1: "to_file_if (pg_refs pg \<noteq> []) (df_refs s) (Inr (od @ ''/data_ref_tweets.csv'')) (files s) = Inr fs1" and
    w2: "to_file_if (pg_users pg \<noteq> []) (df_users s) (Inr (od @ ''/data_users.csv'')) fs1 = Inr fs2" and
    w3: "to_file_if (pg_media pg \<noteq> []) (df_media s) (Inr (od @ ''/data_media.csv'')) fs2 = Inr fs3" and
    w4: "to_file_if (has_refs ev) (df_links s) (Inr (od @ ''/data_ref_links.csv'')) fs3 = Inr fs4" and
    w5: "to_file (df_tweets s) (Inr (od @ ''/data_tweets.csv'')) fs4 = Inr fs5" and
    s0: "files s0 = fs5"
    using pc by (auto simp add: flush_def save_path_for_plain split: sum.splits)
  from w5 obtain r5 where r5: "df_tweets s = Some r5" and f5: "fs5 = fs4(od @ ''/data_tweets.csv'' \<mapsto> r5)"
    by (auto simp add: to_file_def split: option.splits)
  obtain r1 where r1: "pg_refs pg \<noteq> [] \<longrightarrow> df_refs s = Some r1"
    and f1: "fs1 = (if pg_refs pg \<noteq> [] then (files s)(od @ ''/data_ref_tweets.csv'' \<mapsto> r1) else files s)"
    using to_file_if_cases [OF w1] by auto
  obtain r2 where r2: "pg_users pg \<noteq> [] \<longrightarrow> df_users s = Some r2"
    and f2: "fs2 = (if pg_users pg \<noteq> [] then fs1(od @ ''/data_users.csv'' \<mapsto> r2) else fs1)"
    using to_file_if_cases [OF w2] by auto
  obtain r3 where r3: "pg_media pg \<noteq> [] \<longrightarrow> df_media s = Some r3"
    and f3: "fs3 = (if pg_media pg \<noteq> [] then fs2(od @ ''/data_media.csv'' \<mapsto> r3) else fs2)"
    using to_file_if_cases [OF w3] by auto
  obtain r4 where r4: "has_refs ev \<longrightarrow> df_links s = Some r4"
    and f4: "fs4 = (if has_refs ev then fs3(od @ ''/data_ref_links.csv'' \<mapsto> r4) else fs3)"
    using to_file_if_cases [OF w4] by auto
  have "files s0 =
       (\<lambda>p. if p = od @ ''/data_tweets.csv'' then Some r5
            else if p = od @ ''/data_ref_links.csv'' \<and> has_refs ev then Some r4
            else if p = od @ ''/data_media.csv'' \<and> pg_media pg \<noteq> [] then Some r3
            else if p = od @ ''/data_users.csv'' \<and> pg_users pg \<noteq> [] then Some r2
            else if p = od @ ''/data_ref_tweets.csv'' \<and> pg_refs pg \<noteq> [] then Some r1
            else files s p)"
    unfolding s0 f5 f4 f3 f2 f1 by (rule ext) simp
  with r1 r2 r3 r4 r5 show ?thesis by blast
qed

lemma process_page_on_disk:
  assumes pc: "CHR ''%'' \<notin> set od" and disk: "frames_on_disk od s" and dom: "dom (files s) \<subseteq> set (csv_paths od)"
    and pp: "process_page ev od ''csv'' resp s = Inr s1"
  shows "frames_on_disk od s1 \<and> dom (files s1) \<subseteq> set (csv_paths od)"
proof -
  from process_page_cases [OF pp] show ?thesis
  proof (elim disjE exE conjE)
    assume "s1 = s"
    with disk dom show ?thesis by simp
  next
    fix pg s0
    assume dec: "decompose ev resp = Inr pg"
      and fl: "flush ev od ''csv'' pg (merge pg s) = Inr s0"
      and s1: "s1 = s0\<lparr>num_collected := num_collected s0 + length (pg_tweets pg)\<rparr>"
    let ?m = "merge pg s"
    from flush_csv_files [OF pc fl] obtain r1 r2 r3 r4 r5 where
      r1: "pg_refs pg \<noteq> [] \<longrightarrow> df_refs ?m = Some r1" and
      r2: "pg_users pg \<noteq> [] \<longrightarrow> df_users ?m = Some r2" and
      r3: "pg_media pg \<noteq> [] \<longrightarrow> df_media ?m = Some r3" and
      r4: "has_refs ev \<longrightarrow> df_links ?m = Some r4" and
      r5: "df_tweets ?m = Some r5" and
      fs: "files s0 =
       (\<lambda>p. if p = od @ ''/data_tweets.csv'' then Some r5
            else if p = od @ ''/data_ref_links.csv'' \<and> has_refs ev then Some r4
            else if p = od @ ''/data_media.csv'' \<and> pg_media pg \<noteq> [] then Some r3
            else if p = od @ ''/data_users.csv'' \<and> pg_users pg \<noteq> [] then Some r2
            else if p = od @ ''/data_ref_tweets.csv'' \<and> pg_refs pg \<noteq> [] then Some r1
            else files ?m p)"
      by blast
    have fm: "files ?m = files s"
      by (simp add: merge_def)
    have keep_refs: "pg_refs pg = [] \<Longrightarrow> df_refs ?m = df_refs s"
      and keep_users: "pg_users pg = [] \<Longrightarrow> df_users ?m = df_users s"
      and keep_media: "pg_media pg = [] \<Longrightarrow> df_media ?m = df_media s"
      by (simp_all add: merge_def)
    have keep_links: "\<not> has_refs ev \<Longrightarrow> df_links ?m = df_links s"
      using pg_links_None_iff [OF dec] by (simp add: merge_def)
    from disk have old:
      "files s (od @ ''/data_tweets.csv'') = df_tweets s"
      "files s (od @ ''/data_users.csv'') = df_users s"
      "files s (od @ ''/data_ref_tweets.csv'') = df_refs s"
      "files s (od @ ''/data_ref_links.csv'') = df_links s"
      "files s (od @ ''/data_media.csv'') = df_media s"
      by (simp_all add: frames_on_disk_def file_at_def)
    have t: "file_at (od @ ''/data_tweets.csv'') s1 = df_tweets s1"
      using r5 by (simp add: s1 file_at_def fs fm flush_frames [OF fl])
    have u: "file_at (od @ ''/data_users.csv'') s1 = df_users s1"
      using r2 keep_users old(2) by (simp add: s1 file_at_def fs fm flush_frames [OF fl])
    have rt: "file_at (od @ ''/data_ref_tweets.csv'') s1 = df_refs s1"
      using r1 keep_refs old(3) by (simp add: s1 file_at_def fs fm flush_frames [OF fl])
    have rl: "file_at (od @ ''/data_ref_links.csv'') s1 = df_links s1"
      using r4 keep_links old(4) by (simp add: s1 file_at_def fs fm flush_frames [OF fl])
    have md: "file_at (od @ ''/data_media.csv'') s1 = df_media s1"
      using r3 keep_media old(5) by (simp add: s1 file_at_def fs fm flush_frames [OF fl])
    have "p \<in> set (csv_paths od)" if "files s0 p \<noteq> None" for p
    proof (cases "p \<in> set (csv_paths od)")
      case True
      then show ?thesis .
    next
      case False
      then have "files s0 p = files s p"
        by (simp add: fs fm csv_paths_def)
      with that dom show ?thesis by auto
    qed
    then have "dom (files s1) \<subseteq> set (csv_paths od)"
      by (auto simp add: s1)
    with t u rt rl md show ?thesis
      by (simp add: frames_on_disk_def)
  qed
qed

lemma pull_step_on_disk:
  assumes pc: "CHR ''%'' \<notin> set od"
    and "frames_on_disk od s \<and> dom (files s) \<subseteq> set (csv_paths od)"
    and "pull_step ev od ''csv'' batch s = Inr c"
  shows "frames_on_disk od (ctl_state c) \<and> dom (files (ctl_state c)) \<subseteq> set (csv_paths od)"
proof (rule pull_step_preserves
    [where I = "\<lambda>s. frames_on_disk od s \<and> dom (files s) \<subseteq> set (csv_paths od)", OF _ _ assms(2,3)])
  fix resp s1
  assume pp: "process_page ev od ''csv'' resp s = Inr s1"
  from assms(2) have a: "frames_on_disk od s" and b: "dom (files s) \<subseteq> set (csv_paths od)"
    by simp_all
  show "frames_on_disk od s1 \<and> dom (files s1) \<subseteq> set (csv_paths od)"
    by (rule process_page_on_disk [OF pc a b pp])
next
  fix s' :: session and t k f
  assume "frames_on_disk od s' \<and> dom (files s') \<subseteq> set (csv_paths od)"
  then show "frames_on_disk od (s'\<lparr>next_token := t, calls := k, fetches := f\<rparr>)
             \<and> dom (files (s'\<lparr>next_token := t, calls := k, fetches := f\<rparr>))
                 \<subseteq> set (csv_paths od)"
    by (simp add: frames_on_disk_def file_at_def)
qed

text \<open>
  Claim C8, as amended. In a search session with the \<open>csv\<close> format and an output
  directory whose name has no \<open>%\<close>, the files written are \<open>data_tweets.csv\<close>,
  \<open>data_users.csv\<close>, \<open>data_ref_tweets.csv\<close>, \<open>data_ref_links.csv\<close> and
  \<open>data_media.csv\<close> and no other. After every iteration, and at the end of the pull,
  each of them is absent if the frame of its kind was never assigned and holds the whole
  accumulated frame otherwise: every page with tweets rewrites the tweets file, the file
  of each expansion kind that it carries, and the links file when \<open>referenced_tweets\<close>
  is requested, be the link frame empty or not.
\<close>

theorem csv_files_hold_frames:
  assumes "CHR ''%'' \<notin> set output_dir"
  shows "(frames_on_disk output_dir s \<longrightarrow> dom (files s) \<subseteq> set (csv_paths output_dir) \<longrightarrow>
          pull_step ev output_dir ''csv'' batch s = Inr c \<longrightarrow>
            frames_on_disk output_dir (ctl_state c)
            \<and> dom (files (ctl_state c)) \<subseteq> set (csv_paths output_dir))
       \<and> (pull ev output_dir ''csv'' max_results batch_size = Inr s' \<longrightarrow>
            frames_on_disk output_dir s' \<and> dom (files s') \<subseteq> set (csv_paths output_dir))"
proof (intro conjI impI)
  assume a: "frames_on_disk output_dir s" and b: "dom (files s) \<subseteq> set (csv_paths output_dir)"
    and st: "pull_step ev output_dir ''csv'' batch s = Inr c"
  have "frames_on_disk output_dir (ctl_state c)
      \<and> dom (files (ctl_state c)) \<subseteq> set (csv_paths output_dir)"
    by (rule pull_step_on_disk [OF assms conjI [OF a b] st])
  then show "frames_on_disk output_dir (ctl_state c)"
    and "dom (files (ctl_state c)) \<subseteq> set (csv_paths output_dir)"
    by simp_all
next
  assume "pull ev output_dir ''csv'' max_results batch_size = Inr s'"
  then obtain batches where loop: "pull_loop ev output_dir ''csv'' batches init_session = Inr s'"
    by (auto simp add: pull_def split: sum.splits)
  have init: "frames_on_disk output_dir init_session
      \<and> dom (files init_session) \<subseteq> set (csv_paths output_dir)"
    by (simp add: frames_on_disk_def file_at_def init_session_def)
  have "frames_on_disk output_dir s' \<and> dom (files s') \<subseteq> set (csv_paths output_dir)"
    by (rule pull_loop_preserves
          [where I = "\<lambda>s. frames_on_disk output_dir s
                          \<and> dom (files s) \<subseteq> set (csv_paths output_dir)", OF _ init loop])
       (rule pull_step_on_disk [OF assms])
  then show "frames_on_disk output_dir s'"
    and "dom (files s') \<subseteq> set (csv_paths output_dir)"
    by simp_all
qed

theorem csv_files_hold_frames_witness:
  "CHR ''%'' \<notin> set ''out''
   \<and> frames_on_disk ''out'' init_session
   \<and> dom (files init_session) \<subseteq> set (csv_paths ''out'')
   \<and> (\<exists>c. pull_step (sample_env (serve [page [tweet_plain 1] [user_rec 7 ''a''] None])
                         [''id'', ''referenced_tweets''])
              ''out'' ''csv'' 100 init_session = Inr c
          \<and> frames_on_disk ''out'' (ctl_state c)
          \<and> dom (files (ctl_state c)) \<subseteq> set (csv_paths ''out''))
   \<and> (\<exists>s'. pull (sample_env (serve [page [tweet_plain 1] [user_rec 7 ''a''] None])
                     [''id'', ''referenced_tweets''])
              ''out'' ''csv'' 250 100 = Inr s'
          \<and> file_at ''out/data_users.csv'' s' = Some [user_rec 7 ''a'']
          \<and> file_at ''out/data_media.csv'' s' = None
          \<and> frames_on_disk ''out'' s'
          \<and> dom (files s') \<subseteq> set (csv_paths ''out''))"
proof -
  let ?ev = "sample_env (serve [page [tweet_plain 1] [user_rec 7 ''a''] None])
               [''id'', ''referenced_tweets'']"
  have pc: "CHR ''%'' \<notin> set ''out''"
    by simp
  have init: "frames_on_disk ''out'' init_session"
    and dom: "dom (files init_session) \<subseteq> set (csv_paths ''out'')"
    by (simp_all add: frames_on_disk_def file_at_def init_session_def)
  have "\<not> isl (pull_step ?ev ''out'' ''csv'' 100 init_session)"
    by code_simp
  then obtain c where c: "pull_step ?ev ''out'' ''csv'' 100 init_session = Inr c"
    by (cases "pull_step ?ev ''out'' ''csv'' 100 init_session") simp_all
  have "\<not> isl (pull ?ev ''out'' ''csv'' 250 100)"
    by code_simp
  then obtain s' where s': "pull ?ev ''out'' ''csv'' 250 100 = Inr s'"
    by (cases "pull ?ev ''out'' ''csv'' 250 100") simp_all
  have "map_sum id (file_at ''out/data_users.csv'') (pull ?ev ''out'' ''csv'' 250 100)
          = Inr (Some [user_rec 7 ''a''])"
    and "map_sum id (file_at ''out/data_media.csv'') (pull ?ev ''out'' ''csv'' 250 100) = Inr None"
    by code_simp+
  with s' have us: "file_at ''out/data_users.csv'' s' = Some [user_rec 7 ''a'']"
    and md: "file_at ''out/data_media.csv'' s' = None"
    by simp_all
  from csv_files_hold_frames
    [OF pc, where s = init_session and ev = ?ev and batch = 100 and c = c
       and max_results = 250 and batch_size = 100 and s' = s'] init dom c s'
  have "frames_on_disk ''out'' (ctl_state c) \<and> dom (files (ctl_state c)) \<subseteq> set (csv_paths ''out'')"
    and "frames_on_disk ''out'' s' \<and> dom (files s') \<subseteq> set (csv_paths ''out'')"
    by blast+
  with pc init dom c s' us md show ?thesis by blast
qed

text \<open>
  The claim as stated fails: a search session whose page carries a user leaves the
  accumulated users frame in \<open>data_users.csv\<close> and writes no \<open>data_authors.csv\<close>; and
  with \<open>referenced_tweets\<close> requested it writes \<open>data_ref_links.csv\<close> for a link frame
  that has no row.
\<close>

theorem csv_files_counterexample:
  "map_sum id df_users
     (pull (sample_env (serve [page [tweet_plain 1] [user_rec 7 ''a''] None])
              [''id'', ''referenced_tweets''])
        ''out'' ''csv'' 250 100)
     = Inr (Some [user_rec 7 ''a''])
   \<and> map_sum id (file_at ''out/data_authors.csv'')
     (pull (sample_env (serve [page [tweet_plain 1] [user_rec 7 ''a''] None])
              [''id'', ''referenced_tweets''])
        ''out'' ''csv'' 250 100)
     = Inr None
   \<and> map_sum id (file_at ''out/data_users.csv'')
     (pull (sample_env (serve [page [tweet_plain 1] [user_rec 7 ''a''] None])
              [''id'', ''referenced_tweets''])
        ''out'' ''csv'' 250 100)
     = Inr (Some [user_rec 7 ''a''])
   \<and> map_sum id (file_at ''out/data_ref_links.csv'')
     (pull (sample_env (serve [page [tweet_plain 1] [user_rec 7 ''a''] None])
              [''id'', ''referenced_tweets''])
        ''out'' ''csv'' 250 100)
     = Inr (Some [])"
  by code_simp

section \<open>Termination of the pull loops on a finite sequence of pages\<close>
















end
